theory Spec2Isabelle
  imports Complex_Main "HOL-Library.AList" "HOL-Library.Product_Lexorder"
    "HOL-Library.List_Lexorder" "HOL-Library.Char_ord"
begin

section \<open>Python values shared by the services\<close>

text \<open>
  The services under \<^verbatim>\<open>src/backend/services\<close> are Python. Numbers of the
  source that are Python floats are modelled as exact reals; Python integers are
  \<^typ>\<open>int\<close>. Every exception the modelled code can raise is a value of
  \<open>py_error\<close>, and a function that can raise returns \<open>py_error + 'a\<close>.
\<close>

datatype py_error =
  ZeroDivisionError | KeyError | IndexError | TypeError | ValueError | AttributeError

text \<open>Python's \<^verbatim>\<open>a / b\<close> on numbers: it raises when the divisor is zero.\<close>

definition py_truediv :: "real \<Rightarrow> real \<Rightarrow> py_error + real" where
  "py_truediv a b = (if b = 0 then Inl ZeroDivisionError else Inr (a / b))"

text \<open>Python's \<^verbatim>\<open>int(x)\<close> on a float: truncation towards zero.\<close>

definition py_int :: "real \<Rightarrow> int" where
  "py_int x = (if 0 \<le> x then \<lfloor>x\<rfloor> else \<lceil>x\<rceil>)"

text \<open>
  Python's \<^verbatim>\<open>round(x, n)\<close>: the nearest multiple of \<open>10^-n\<close>, a tie going to
  the even neighbour.
\<close>

definition round_half_even :: "real \<Rightarrow> int" where
  "round_half_even y =
     (let f = \<lfloor>y\<rfloor>; r = y - of_int f
      in if r < 1 / 2 then f
         else if 1 / 2 < r then f + 1
         else if even f then f else f + 1)"

definition py_round :: "real \<Rightarrow> nat \<Rightarrow> real" where
  "py_round x n = of_int (round_half_even (x * 10 ^ n)) / 10 ^ n"

section \<open>Population aggregation (service\_area\_analyzer.py)\<close>

text \<open>
  A cell of a table: \<^verbatim>\<open>None\<close>, the float \<^verbatim>\<open>nan\<close>, a string, or a number (on
  \<^verbatim>\<open>nan\<close> the conversion in \<^verbatim>\<open>to_int\<close> raises and is caught). A row is the
  pandas Series that \<^verbatim>\<open>iterrows\<close> yields: labels with their cells.
  \<^verbatim>\<open>float(str)\<close> is Python's own parser and is a parameter \<open>pf\<close> of the model:
  \<open>None\<close> stands for every input on which \<^verbatim>\<open>int(float(...))\<close> raises, which
  \<^verbatim>\<open>to_int\<close> catches.
\<close>

datatype cell = CNone | CNaN | CStr string | CNum real

type_synonym row = "(string \<times> cell) list"

record frame =
  columns :: "string list"
  rows :: "row list"

definition to_int :: "(string \<Rightarrow> real option) \<Rightarrow> cell \<Rightarrow> int" where
  "to_int pf val =
     (case val of
        CNone \<Rightarrow> 0
      | CNaN \<Rightarrow> 0
      | CStr s \<Rightarrow>
          (if s = ''*'' \<or> s = '''' then 0
           else (case pf (filter (\<lambda>c. c \<noteq> CHR '','') s) of
                   None \<Rightarrow> 0
                 | Some x \<Rightarrow> py_int x))
      | CNum x \<Rightarrow> py_int x)"

text \<open>\<^verbatim>\<open>cols[k] if len(cols) > k else None\<close>\<close>

definition col_at :: "string list \<Rightarrow> nat \<Rightarrow> string option" where
  "col_at cols k = (if k < length cols then Some (cols ! k) else None)"

text \<open>
  \<^verbatim>\<open>if col in row.index: total += to_int(row[col])\<close>; the label \<^verbatim>\<open>None\<close> of a
  table with too few columns is in no index.
\<close>

definition add_col :: "(string \<Rightarrow> real option) \<Rightarrow> string option \<Rightarrow> row \<Rightarrow> int \<Rightarrow> int" where
  "add_col pf col r acc =
     (case col of
        None \<Rightarrow> acc
      | Some c \<Rightarrow> (case map_of r c of None \<Rightarrow> acc | Some v \<Rightarrow> acc + to_int pf v))"

record stats =
  poblacion_total :: int
  poblacion_femenina :: int
  poblacion_masculina :: int
  pob_0_14 :: int
  pob_15_29 :: int
  pob_30_59 :: int
  pob_60_mas :: int
  discapacidad_total :: int
  discapacidad_porcentaje :: real

definition empty_stats :: stats where
  "empty_stats =
     \<lparr>poblacion_total = 0, poblacion_femenina = 0, poblacion_masculina = 0,
      pob_0_14 = 0, pob_15_29 = 0, pob_30_59 = 0, pob_60_mas = 0,
      discapacidad_total = 0, discapacidad_porcentaje = 0\<rparr>"

text \<open>The body of the loop over the rows, with the column labels found by position.\<close>

definition aggregate_row :: "(string \<Rightarrow> real option) \<Rightarrow> string list \<Rightarrow> row \<Rightarrow> stats \<Rightarrow> stats" where
  "aggregate_row pf cols r st =
     st\<lparr>poblacion_total := add_col pf (col_at cols 6) r (poblacion_total st),
        poblacion_femenina := add_col pf (col_at cols 7) r (poblacion_femenina st),
        poblacion_masculina := add_col pf (col_at cols 9) r (poblacion_masculina st),
        pob_0_14 := add_col pf (col_at cols 11) r (pob_0_14 st),
        pob_15_29 := add_col pf (col_at cols 13) r (pob_15_29 st),
        pob_30_59 := add_col pf (col_at cols 15) r (pob_30_59 st),
        pob_60_mas := add_col pf (col_at cols 17) r (pob_60_mas st),
        discapacidad_total := add_col pf (col_at cols 19) r (discapacidad_total st)\<rparr>"

definition aggregate_population :: "(string \<Rightarrow> real option) \<Rightarrow> frame \<Rightarrow> py_error + stats" where
  "aggregate_population pf manzanas =
     (let st = fold (aggregate_row pf (columns manzanas)) (rows manzanas) empty_stats
      in if 0 < poblacion_total st
         then (case py_truediv (of_int (discapacidad_total st)) (of_int (poblacion_total st)) of
                 Inl e \<Rightarrow> Inl e
               | Inr q \<Rightarrow> Inr (st\<lparr>discapacidad_porcentaje := py_round (q * 100) 2\<rparr>))
         else Inr st)"

text \<open>
  A table of twenty columns labelled \<open>c0 .. c19\<close> whose single block has total
  population 100 (column 6) and disability count 0 (column 19).
\<close>

definition census_labels :: "string list" where
  "census_labels =
     [''c0'', ''c1'', ''c2'', ''c3'', ''c4'', ''c5'', ''c6'', ''c7'', ''c8'', ''c9'',
      ''c10'', ''c11'', ''c12'', ''c13'', ''c14'', ''c15'', ''c16'', ''c17'', ''c18'', ''c19'']"

definition block_100_0 :: frame where
  "block_100_0 =
     \<lparr>columns = census_labels,
      rows = [zip census_labels
               [CNone, CNone, CNone, CNone, CNone, CNone, CNum 100, CNum 48, CNone, CNum 52,
                CNone, CNum 30, CNone, CNum 30, CNone, CNum 30, CNone, CNum 10, CNone, CNum 0]]\<rparr>"

section \<open>The road graph and the reachability engine (network\_analyzer.py)\<close>

type_synonym node = int
type_synonym point = "real \<times> real"

text \<open>
  The geometry of a road record is a shapely \<^verbatim>\<open>LineString\<close> or
  \<^verbatim>\<open>MultiLineString\<close>, given by its coordinates. A record of the road table has the
  columns that the builder reads: \<^verbatim>\<open>UNION_INI\<close>, \<^verbatim>\<open>UNION_FIN\<close>,
  \<^verbatim>\<open>LONGITUD\<close> and the geometry, which may be missing.
\<close>

datatype geom = LineString "point list" | MultiLineString "point list list"

record segment =
  union_ini :: node
  union_fin :: node
  longitud :: real
  seg_geometry :: "geom option"

text \<open>
  The graph is a networkx \<^verbatim>\<open>nx.Graph()\<close>: its adjacency \<^verbatim>\<open>_adj\<close> is a dictionary
  from a node to a dictionary from each neighbour to the attributes of the edge between
  them. Dictionaries keep insertion order, so they are association lists with distinct
  keys, written with \<^const>\<open>AList.update\<close>.
\<close>

record edge_attr =
  weight :: real
  geometry :: geom

type_synonym nxgraph = "(node \<times> (node \<times> edge_attr) list) list"

definition has_node :: "nxgraph \<Rightarrow> node \<Rightarrow> bool" where
  "has_node G u = (u \<in> fst ` set G)"

definition add_node :: "node \<Rightarrow> nxgraph \<Rightarrow> nxgraph" where
  "add_node u G = (if has_node G u then G else G @ [(u, [])])"

text \<open>\<^verbatim>\<open>_adj[u][v] = datadict\<close>\<close>

definition set_adj :: "node \<Rightarrow> node \<Rightarrow> edge_attr \<Rightarrow> nxgraph \<Rightarrow> nxgraph" where
  "set_adj u v a G =
     (case map_of G u of
        None \<Rightarrow> G
      | Some nbrs \<Rightarrow> AList.update u (AList.update v a nbrs) G)"

text \<open>
  \<^verbatim>\<open>Graph.add_edge(u, v, weight=..., geometry=...)\<close>: both nodes are added when they
  are new, the attribute dictionary of an existing edge is updated with the attributes
  given (here all of them), and it is stored under \<^verbatim>\<open>_adj[u][v]\<close> and
  \<^verbatim>\<open>_adj[v][u]\<close>.
\<close>

definition add_edge :: "node \<Rightarrow> node \<Rightarrow> edge_attr \<Rightarrow> nxgraph \<Rightarrow> nxgraph" where
  "add_edge u v a G = set_adj v u a (set_adj u v a (add_node v (add_node u G)))"

definition edge_data :: "nxgraph \<Rightarrow> node \<Rightarrow> node \<Rightarrow> edge_attr option" where
  "edge_data G u v = (case map_of G u of None \<Rightarrow> None | Some nbrs \<Rightarrow> map_of nbrs v)"

record network_analyzer =
  graph :: "nxgraph option"
  node_coords :: "(node \<times> point) list"
  coord_tree :: "point list option"
  node_ids :: "node list"

text \<open>
  \<^verbatim>\<open>coords = list(geom.geoms[0].coords)\<close> for a \<^verbatim>\<open>MultiLineString\<close>, else
  \<^verbatim>\<open>list(geom.coords)\<close>.
\<close>

definition geom_coords :: "geom \<Rightarrow> py_error + point list" where
  "geom_coords g =
     (case g of
        MultiLineString ls \<Rightarrow> (case ls of [] \<Rightarrow> Inl IndexError | l # _ \<Rightarrow> Inr l)
      | LineString l \<Rightarrow> Inr l)"

text \<open>\<^verbatim>\<open>if node not in self.node_coords: self.node_coords[node] = coord\<close>\<close>

definition store_coord :: "node \<Rightarrow> point \<Rightarrow> (node \<times> point) list \<Rightarrow> (node \<times> point) list" where
  "store_coord n c nc = (if n \<in> fst ` set nc then nc else nc @ [(n, c)])"

text \<open>The body of the loop over the road records.\<close>

definition build_step ::
  "segment \<Rightarrow> nxgraph \<times> (node \<times> point) list \<Rightarrow> py_error + nxgraph \<times> (node \<times> point) list" where
  "build_step row st =
     (case seg_geometry row of
        None \<Rightarrow> Inr st
      | Some g \<Rightarrow>
          (case geom_coords g of
             Inl e \<Rightarrow> Inl e
           | Inr coords \<Rightarrow>
               if length coords < 2 then Inr st
               else
                 let nc1 = store_coord (union_ini row) (hd coords) (snd st);
                     nc2 = store_coord (union_fin row) (last coords) nc1
                 in Inr (add_edge (union_ini row) (union_fin row)
                           \<lparr>weight = longitud row, geometry = g\<rparr> (fst st), nc2)))"

fun build_loop ::
  "segment list \<Rightarrow> nxgraph \<times> (node \<times> point) list \<Rightarrow> py_error + nxgraph \<times> (node \<times> point) list" where
  "build_loop [] st = Inr st"
| "build_loop (row # rest) st =
     (case build_step row st of Inl e \<Rightarrow> Inl e | Inr st' \<Rightarrow> build_loop rest st')"

text \<open>
  \<^verbatim>\<open>_load_and_build_network\<close>. The argument is the road table read from the shapefile,
  \<open>None\<close> when the file does not exist. \<^verbatim>\<open>_build_spatial_index\<close> builds a scipy
  \<^verbatim>\<open>cKDTree\<close> over the node coordinates, which raises \<^verbatim>\<open>ValueError\<close> on an empty
  coordinate list.
\<close>

definition load_and_build_network :: "segment list option \<Rightarrow> py_error + network_analyzer" where
  "load_and_build_network rnc =
     (case rnc of
        None \<Rightarrow> Inr \<lparr>graph = None, node_coords = [], coord_tree = None, node_ids = []\<rparr>
      | Some segs \<Rightarrow>
          (case build_loop segs ([], []) of
             Inl e \<Rightarrow> Inl e
           | Inr (G, nc) \<Rightarrow>
               if nc = [] then Inl ValueError
               else Inr \<lparr>graph = Some G, node_coords = nc,
                         coord_tree = Some (map snd nc), node_ids = map fst nc\<rparr>))"

subsection \<open>Nearest node\<close>

definition euclid :: "point \<Rightarrow> point \<Rightarrow> real" where
  "euclid p q = sqrt ((fst p - fst q)\<^sup>2 + (snd p - snd q)\<^sup>2)"

text \<open>
  \<^verbatim>\<open>cKDTree.query(coords)\<close> with one neighbour: the distance to a nearest point of the
  tree and its position. Among several nearest points the position returned here is the
  first; scipy does not say which one it returns.
\<close>

fun kd_query :: "point list \<Rightarrow> point \<Rightarrow> (real \<times> nat) option" where
  "kd_query [] p = None"
| "kd_query (c # cs) p =
     (case kd_query cs p of
        None \<Rightarrow> Some (euclid c p, 0)
      | Some (d, i) \<Rightarrow> if euclid c p \<le> d then Some (euclid c p, 0) else Some (d, Suc i))"

text \<open>
  \<^verbatim>\<open>find_nearest_node\<close>: \<^verbatim>\<open>None\<close> without a tree, else the pair
  \<^verbatim>\<open>(self.node_ids[idx], dist)\<close>.
\<close>

definition find_nearest_node :: "network_analyzer \<Rightarrow> point \<Rightarrow> py_error + (node \<times> real) option" where
  "find_nearest_node na p =
     (case coord_tree na of
        None \<Rightarrow> Inr None
      | Some tree \<Rightarrow>
          (case kd_query tree p of
             None \<Rightarrow> Inl IndexError
           | Some (d, idx) \<Rightarrow>
               if idx < length (node_ids na) then Inr (Some (node_ids na ! idx, d))
               else Inl IndexError))"

text \<open>
  \<^verbatim>\<open>is_point_in_service_area\<close>. Unpacking the \<^verbatim>\<open>None\<close> that
  \<^verbatim>\<open>find_nearest_node\<close> returns without a tree raises \<^verbatim>\<open>TypeError\<close>. The second
  component of the result is the total distance, \<open>None\<close> standing for
  \<^verbatim>\<open>float('inf')\<close>.
\<close>

definition is_point_in_service_area ::
  "network_analyzer \<Rightarrow> point \<Rightarrow> node set \<Rightarrow> (node \<times> real) list \<Rightarrow> real
     \<Rightarrow> py_error + bool \<times> real option" where
  "is_point_in_service_area na p service_area_nodes node_distances max_distance =
     (case find_nearest_node na p of
        Inl e \<Rightarrow> Inl e
      | Inr None \<Rightarrow> Inl TypeError
      | Inr (Some (nearest_node, dist_to_node)) \<Rightarrow>
          if nearest_node \<in> service_area_nodes then
            let network_dist = (case map_of node_distances nearest_node of None \<Rightarrow> 0 | Some x \<Rightarrow> x);
                total_dist = dist_to_node + network_dist
            in Inr (total_dist \<le> max_distance, Some total_dist)
          else Inr (False, None))"

subsection \<open>Bounded shortest paths\<close>

text \<open>
  \<^verbatim>\<open>nx.single_source_dijkstra_path_length(G, source, cutoff=..., weight='weight')\<close>
  is networkx's \<^verbatim>\<open>_dijkstra_multisource\<close> run from one source. Its state is the
  dictionary \<^verbatim>\<open>dist\<close> of final distances, the dictionary \<^verbatim>\<open>seen\<close> of the best
  distance pushed so far, the heap \<^verbatim>\<open>fringe\<close> of triples
  \<^verbatim>\<open>(distance, counter, node)\<close> and the counter. The heap is a list here, and
  \<^verbatim>\<open>heappop\<close> removes its least triple in Python's tuple order.

  \<open>relax\<close> is the loop over the neighbours \<^verbatim>\<open>G._adj[v].items()\<close> of the node \<open>v\<close>
  just finalised at distance \<open>dv\<close>; it raises \<^verbatim>\<open>ValueError\<close> ("Contradictory paths
  found") when it finds a shorter way to a finalised node.
\<close>

type_synonym heap_entry = "real \<times> nat \<times> node"

fun relax ::
  "real \<Rightarrow> (node \<times> real) list \<Rightarrow> real \<Rightarrow> (node \<times> edge_attr) list
     \<Rightarrow> (node \<times> real) list \<times> heap_entry list \<times> nat
     \<Rightarrow> py_error + (node \<times> real) list \<times> heap_entry list \<times> nat" where
  "relax cutoff dists dv [] st = Inr st"
| "relax cutoff dists dv ((u, e) # es) (seen, fringe, c) =
     (let vu_dist = dv + weight e
      in if cutoff < vu_dist then relax cutoff dists dv es (seen, fringe, c)
         else
           (case map_of dists u of
              Some u_dist \<Rightarrow>
                if vu_dist < u_dist then Inl ValueError
                else relax cutoff dists dv es (seen, fringe, c)
            | None \<Rightarrow>
                if map_of seen u = None \<or> vu_dist < the (map_of seen u)
                then relax cutoff dists dv es
                       (AList.update u vu_dist seen, fringe @ [(vu_dist, c, u)], Suc c)
                else relax cutoff dists dv es (seen, fringe, c)))"

function dijkstra_loop ::
  "nxgraph \<Rightarrow> real \<Rightarrow> (node \<times> real) list \<Rightarrow> (node \<times> real) list \<Rightarrow> heap_entry list \<Rightarrow> nat
     \<Rightarrow> py_error + (node \<times> real) list" where
  "dijkstra_loop G cutoff dists seen fringe c =
     (if fringe = [] then Inr dists
      else
        let m = Min (set fringe);
            rest = remove1 m fringe;
            d = fst m;
            v = snd (snd m)
        in if v \<in> fst ` set dists then dijkstra_loop G cutoff dists seen rest c
           else
             (case map_of G v of
                None \<Rightarrow> Inl KeyError
              | Some nbrs \<Rightarrow>
                  (case relax cutoff (AList.update v d dists) d nbrs (seen, rest, c) of
                     Inl e \<Rightarrow> Inl e
                   | Inr (seen', fringe', c') \<Rightarrow>
                       dijkstra_loop G cutoff (AList.update v d dists) seen' fringe' c')))"
  by pat_completeness auto
termination
proof (relation "measures [\<lambda>(G, cutoff, dists, seen, fringe, c). card (fst ` set G - fst ` set dists),
                           \<lambda>(G, cutoff, dists, seen, fringe, c). length fringe]", goal_cases)
  case 1
  show ?case by simp
next
  case (2 G cutoff dists seen fringe c m rest d v)
  have "Min (set fringe) \<in> set fringe"
    using 2(1) by (intro Min_in) simp_all
  then have "length (remove1 (Min (set fringe)) fringe) < length fringe"
    using 2(1) by (simp add: length_remove1)
  with 2 show ?case by simp
next
  case (3 G cutoff dists seen fringe c m rest d v nbrs st seen' rest' fringe' c')
  have "v \<in> fst ` set G"
    using 3(7) by (force dest: map_of_SomeD)
  moreover have "fst ` set G - fst ` set (AList.update v d dists) = (fst ` set G - fst ` set dists) - {v}"
    by (auto simp: dom_update)
  moreover have "v \<in> fst ` set G - fst ` set dists \<Longrightarrow>
      card ((fst ` set G - fst ` set dists) - {v}) < card (fst ` set G - fst ` set dists)"
    by (rule card_Diff1_less) simp_all
  ultimately have "card (fst ` set G - fst ` set (AList.update v d dists)) < card (fst ` set G - fst ` set dists)"
    using 3(6) by simp
  then show ?case by simp
qed

text \<open>
  \<^verbatim>\<open>single_source_dijkstra_path_length\<close>: a source that is not a node of the graph
  raises \<^verbatim>\<open>NodeNotFound\<close>, written \<open>KeyError\<close> here; the source starts at distance 0.
\<close>

definition single_source_dijkstra_path_length ::
  "nxgraph \<Rightarrow> node \<Rightarrow> real \<Rightarrow> py_error + (node \<times> real) list" where
  "single_source_dijkstra_path_length G source cutoff =
     (if \<not> has_node G source then Inl KeyError
      else dijkstra_loop G cutoff [] [(source, 0)] [(0, 0, source)] 1)"

subsection \<open>Seed nodes and the service area\<close>

text \<open>
  The shapely and geopandas operations that the services call on routes, zones and
  areas are parameters of the model, collected in one record over a type \<open>'g\<close> of
  geometries: the projection to UTM zone 14N, the length of a line, the point at a
  fraction of its length (\<^verbatim>\<open>interpolate(fraction, normalized=True)\<close>), the buffer, the
  intersection test, the centroid, the union, and the embeddings of road geometries and
  of points.
\<close>

record 'g shapely =
  to_utm :: "'g \<Rightarrow> 'g"
  geom_length :: "'g \<Rightarrow> real"
  interpolate :: "'g \<Rightarrow> real \<Rightarrow> point"
  buffer :: "'g \<Rightarrow> real \<Rightarrow> 'g"
  intersects :: "'g \<Rightarrow> 'g \<Rightarrow> bool"
  centroid :: "'g \<Rightarrow> point"
  unary_union :: "'g list \<Rightarrow> 'g"
  of_geom :: "geom \<Rightarrow> 'g"
  of_point :: "point \<Rightarrow> 'g"

text \<open>\<^verbatim>\<open>nodes_found.add(node_id)\<close> on a Python set, kept as a list without repetition.\<close>

definition set_add :: "'a \<Rightarrow> 'a list \<Rightarrow> 'a list" where
  "set_add x xs = (if x \<in> set xs then xs else xs @ [x])"

text \<open>
  The loop \<^verbatim>\<open>for i in range(num_samples + 1)\<close> of
  \<^verbatim>\<open>find_nearest_nodes_on_route\<close>; \<open>ip\<close> is the interpolation along the projected
  route. \<open>num_samples\<close> is at least 10, so \<^verbatim>\<open>i / num_samples\<close> does not raise.
\<close>

fun sample_loop ::
  "(real \<Rightarrow> point) \<Rightarrow> network_analyzer \<Rightarrow> nat \<Rightarrow> nat list \<Rightarrow> node list \<Rightarrow> py_error + node list" where
  "sample_loop ip na num_samples [] nodes_found = Inr nodes_found"
| "sample_loop ip na num_samples (i # rest) nodes_found =
     (case find_nearest_node na (ip (real i / real num_samples)) of
        Inl e \<Rightarrow> Inl e
      | Inr None \<Rightarrow> Inl TypeError
      | Inr (Some (node_id, d)) \<Rightarrow>
          sample_loop ip na num_samples rest
            (if d < 500 then set_add node_id nodes_found else nodes_found))"

text \<open>
  \<^verbatim>\<open>find_nearest_nodes_on_route\<close>. The route is a line geometry in geographic
  coordinates, so it is projected; the union that merges a \<^verbatim>\<open>MultiLineString\<close> is
  part of \<open>geom_length\<close> and \<open>interpolate\<close>.
\<close>

definition find_nearest_nodes_on_route ::
  "'g shapely \<Rightarrow> network_analyzer \<Rightarrow> 'g \<Rightarrow> real \<Rightarrow> py_error + node list" where
  "find_nearest_nodes_on_route sh na route_geometry sample_distance =
     (case coord_tree na of
        None \<Rightarrow> Inr []
      | Some tree \<Rightarrow>
          let route_line = to_utm sh route_geometry;
              total_length = geom_length sh route_line
          in (case py_truediv total_length sample_distance of
                Inl e \<Rightarrow> Inl e
              | Inr q \<Rightarrow>
                  let num_samples = nat (max (py_int q) 10)
                  in sample_loop (interpolate sh route_line) na num_samples
                       [0 ..< num_samples + 1] []))"

text \<open>
  \<^verbatim>\<open>if node not in all_reachable or dist < all_reachable[node]:
  all_reachable[node] = dist\<close>
\<close>

definition keep_min :: "node \<times> real \<Rightarrow> (node \<times> real) list \<Rightarrow> (node \<times> real) list" where
  "keep_min nd all_reachable =
     (if map_of all_reachable (fst nd) = None \<or> snd nd < the (map_of all_reachable (fst nd))
      then AList.update (fst nd) (snd nd) all_reachable
      else all_reachable)"

text \<open>
  The loop \<^verbatim>\<open>for source_node in route_nodes\<close>. The modelled search raises no
  \<^verbatim>\<open>nx.NetworkXError\<close>, the only exception the loop catches.
\<close>

fun source_loop ::
  "nxgraph \<Rightarrow> real \<Rightarrow> node list \<Rightarrow> (node \<times> real) list \<Rightarrow> py_error + (node \<times> real) list" where
  "source_loop G max_distance [] all_reachable = Inr all_reachable"
| "source_loop G max_distance (source_node # rest) all_reachable =
     (if \<not> has_node G source_node then source_loop G max_distance rest all_reachable
      else
        (case single_source_dijkstra_path_length G source_node max_distance of
           Inl e \<Rightarrow> Inl e
         | Inr distances \<Rightarrow>
             source_loop G max_distance rest (fold keep_min distances all_reachable)))"

text \<open>
  \<^verbatim>\<open>calculate_service_area\<close> returns the set of reachable nodes and the dictionary of
  their distances. The set is the list of the dictionary's keys here.
\<close>

definition calculate_service_area ::
  "'g shapely \<Rightarrow> network_analyzer \<Rightarrow> 'g \<Rightarrow> real \<Rightarrow> py_error + node list \<times> (node \<times> real) list" where
  "calculate_service_area sh na route_geometry max_distance =
     (case graph na of
        None \<Rightarrow> Inr ([], [])
      | Some G \<Rightarrow>
          (case find_nearest_nodes_on_route sh na route_geometry 100 of
             Inl e \<Rightarrow> Inl e
           | Inr route_nodes \<Rightarrow>
               if route_nodes = [] then Inr ([], [])
               else
                 (case source_loop G max_distance route_nodes [] of
                    Inl e \<Rightarrow> Inl e
                  | Inr all_reachable \<Rightarrow> Inr (map fst all_reachable, all_reachable))))"

subsection \<open>Walks and shortest distances\<close>

text \<open>
  \<open>walk G s v d\<close>: the graph has a walk from the node \<open>s\<close> to \<open>v\<close> whose edge weights
  add up to \<open>d\<close>. \<open>shortest_dist G s v d\<close>: \<open>d\<close> is the least such sum, the
  shortest-path distance from \<open>s\<close> to \<open>v\<close>.
\<close>

inductive walk :: "nxgraph \<Rightarrow> node \<Rightarrow> node \<Rightarrow> real \<Rightarrow> bool" for G :: nxgraph and s :: node where
  walk_refl: "has_node G s \<Longrightarrow> walk G s s 0"
| walk_step: "walk G s u a \<Longrightarrow> edge_data G u v = Some e \<Longrightarrow> walk G s v (a + weight e)"

definition shortest_dist :: "nxgraph \<Rightarrow> node \<Rightarrow> node \<Rightarrow> real \<Rightarrow> bool" where
  "shortest_dist G s v d = (walk G s v d \<and> (\<forall>d'. walk G s v d' \<longrightarrow> d \<le> d'))"

text \<open>
  What every graph built by \<^const>\<open>add_edge\<close> satisfies: the keys of each adjacency
  dictionary are distinct and are nodes of the graph. Road lengths are not negative.
\<close>

definition nx_wellformed :: "nxgraph \<Rightarrow> bool" where
  "nx_wellformed G =
     (\<forall>(u, nbrs) \<in> set G. distinct (map fst nbrs) \<and> (\<forall>(v, e) \<in> set nbrs. has_node G v))"

definition nonneg_weights :: "nxgraph \<Rightarrow> bool" where
  "nonneg_weights G = (\<forall>(u, nbrs) \<in> set G. \<forall>(v, e) \<in> set nbrs. 0 \<le> weight e)"

text \<open>
  The invariant of the search loop. \<open>covered dists fringe y b\<close>: the node \<open>y\<close> is
  final, or the heap holds an entry for it of distance at most \<open>b\<close>.
\<close>

definition covered :: "(node \<times> real) list \<Rightarrow> heap_entry list \<Rightarrow> node \<Rightarrow> real \<Rightarrow> bool" where
  "covered dists fringe y b =
     (y \<in> fst ` set dists \<or> (\<exists>en \<in> set fringe. snd (snd en) = y \<and> fst en \<le> b))"

definition dijkstra_inv ::
  "nxgraph \<Rightarrow> node \<Rightarrow> real \<Rightarrow> (node \<times> real) list \<Rightarrow> (node \<times> real) list \<Rightarrow> heap_entry list \<Rightarrow> bool" where
  "dijkstra_inv G s cutoff dists seen fringe =
     (distinct (map fst dists)
      \<and> (\<forall>v d. map_of dists v = Some d \<longrightarrow> shortest_dist G s v d \<and> (d \<le> cutoff \<or> v = s))
      \<and> (\<forall>en \<in> set fringe. walk G s (snd (snd en)) (fst en) \<and> (fst en \<le> cutoff \<or> snd (snd en) = s))
      \<and> (\<forall>v dv. map_of dists v = Some dv \<longrightarrow> (\<forall>en \<in> set fringe. dv \<le> fst en))
      \<and> (\<forall>x dx y e. map_of dists x = Some dx \<longrightarrow> edge_data G x y = Some e
            \<longrightarrow> dx + weight e \<le> cutoff \<longrightarrow> covered dists fringe y (dx + weight e))
      \<and> (\<forall>y sy. map_of seen y = Some sy \<longrightarrow> covered dists fringe y sy)
      \<and> (dists = [] \<and> fringe = [(0, 0, s)] \<or> s \<in> fst ` set dists))"

subsection \<open>Notions used by the statements\<close>

definition bounded_dist :: "nxgraph \<Rightarrow> node \<Rightarrow> real \<Rightarrow> node \<Rightarrow> real \<Rightarrow> bool" where
  "bounded_dist G s cutoff v d = (shortest_dist G s v d \<and> (d \<le> cutoff \<or> v = s))"

text \<open>What the builder keeps true of the graph and the coordinate dictionary.\<close>

definition build_inv :: "nxgraph \<times> (node \<times> point) list \<Rightarrow> bool" where
  "build_inv st = (nx_wellformed (fst st) \<and> fst ` set (snd st) = fst ` set (fst st))"

text \<open>
  The analyzers that \<open>load_and_build_network\<close> returns: without a road table there is
  neither graph nor tree; with one, the tree and the identifier list are read off the
  coordinate dictionary, which is not empty and has the nodes of the graph as keys.
\<close>

definition analyzer_ready :: "network_analyzer \<Rightarrow> bool" where
  "analyzer_ready na =
     (case graph na of
        None \<Rightarrow> coord_tree na = None
      | Some G \<Rightarrow> nx_wellformed G \<and> node_coords na \<noteq> []
          \<and> coord_tree na = Some (map snd (node_coords na))
          \<and> node_ids na = map fst (node_coords na)
          \<and> set (node_ids na) = fst ` set G)"

text \<open>
  The points that \<^verbatim>\<open>find_nearest_nodes_on_route\<close> samples on a route: the points at
  the fractions \<open>i / num_samples\<close>, \<open>i = 0 .. num_samples\<close>, of the projected line.
\<close>

definition route_samples :: "'g shapely \<Rightarrow> 'g \<Rightarrow> point list" where
  "route_samples sh route_geometry =
     (let route_line = to_utm sh route_geometry;
          num_samples = nat (max (py_int (geom_length sh route_line / 100)) 10)
      in map (\<lambda>i. interpolate sh route_line (real i / real num_samples)) [0 ..< num_samples + 1])"

subsection \<open>An example road and track\<close>

text \<open>
  An instance of the geometry operations for the examples: a geometry is a closed segment
  \<open>[a, b]\<close> of the x-axis, in metres. The union is the covering segment, which is the
  union whenever the parts overlap or touch, as they do in the examples.
\<close>

definition axis_shapely :: "(real \<times> real) shapely" where
  "axis_shapely =
     \<lparr>to_utm = (\<lambda>g. g),
      geom_length = (\<lambda>(a, b). b - a),
      interpolate = (\<lambda>(a, b) f. (a + f * (b - a), 0)),
      buffer = (\<lambda>(a, b) r. (a - r, b + r)),
      intersects = (\<lambda>(a, b) (c, d). a \<le> d \<and> c \<le> b),
      centroid = (\<lambda>(a, b). ((a + b) / 2, 0)),
      unary_union = (\<lambda>gs. (Min (set (map fst gs)), Max (set (map snd gs)))),
      of_geom = (\<lambda>g. case g of
                   LineString cs \<Rightarrow> (Min (set (map fst cs)), Max (set (map fst cs)))
                 | MultiLineString ls \<Rightarrow>
                     (Min (set (map fst (concat ls))), Max (set (map fst (concat ls))))),
      of_point = (\<lambda>p. (fst p, fst p))\<rparr>"

text \<open>
  A road of four nodes on the x-axis, at 0, 300, 800 and 1200 m, and a track that runs
  along its first segment.
\<close>

definition road_table :: "segment list" where
  "road_table =
     [\<lparr>union_ini = 1, union_fin = 2, longitud = 300,
        seg_geometry = Some (LineString [(0, 0), (300, 0)])\<rparr>,
      \<lparr>union_ini = 2, union_fin = 3, longitud = 500,
        seg_geometry = Some (LineString [(300, 0), (800, 0)])\<rparr>,
      \<lparr>union_ini = 3, union_fin = 4, longitud = 400,
        seg_geometry = Some (LineString [(800, 0), (1200, 0)])\<rparr>]"

definition road_graph :: nxgraph where
  "road_graph =
     [(1, [(2, \<lparr>weight = 300, geometry = LineString [(0, 0), (300, 0)]\<rparr>)]),
      (2, [(1, \<lparr>weight = 300, geometry = LineString [(0, 0), (300, 0)]\<rparr>),
           (3, \<lparr>weight = 500, geometry = LineString [(300, 0), (800, 0)]\<rparr>)]),
      (3, [(2, \<lparr>weight = 500, geometry = LineString [(300, 0), (800, 0)]\<rparr>),
           (4, \<lparr>weight = 400, geometry = LineString [(800, 0), (1200, 0)]\<rparr>)]),
      (4, [(3, \<lparr>weight = 400, geometry = LineString [(800, 0), (1200, 0)]\<rparr>)])]"

definition road_analyzer :: network_analyzer where
  "road_analyzer =
     \<lparr>graph = Some road_graph,
      node_coords = [(1, (0, 0)), (2, (300, 0)), (3, (800, 0)), (4, (1200, 0))],
      coord_tree = Some [(0, 0), (300, 0), (800, 0), (1200, 0)],
      node_ids = [1, 2, 3, 4]\<rparr>"

definition track :: "real \<times> real" where
  "track = (0, 300)"

definition far_track :: "real \<times> real" where
  "far_track = (5000, 5300)"

text \<open>
  A record is usable when the builder does not skip it: it has a geometry with at least
  two coordinates. It joins \<open>u\<close> and \<open>v\<close> when these are its two endpoint identifiers,
  in either order. \<open>last_between segs u v\<close> is the last usable record of the table that
  joins \<open>u\<close> and \<open>v\<close>, and \<open>edge_of\<close> the attributes the builder gives its edge.
\<close>

definition usable :: "segment \<Rightarrow> bool" where
  "usable row =
     (case seg_geometry row of
        None \<Rightarrow> False
      | Some g \<Rightarrow> (case geom_coords g of Inl e \<Rightarrow> False | Inr coords \<Rightarrow> 2 \<le> length coords))"

definition joins :: "segment \<Rightarrow> node \<Rightarrow> node \<Rightarrow> bool" where
  "joins row u v =
     (union_ini row = u \<and> union_fin row = v \<or> union_ini row = v \<and> union_fin row = u)"

definition last_between :: "segment list \<Rightarrow> node \<Rightarrow> node \<Rightarrow> segment option" where
  "last_between segs u v =
     (case rev (filter (\<lambda>row. usable row \<and> joins row u v) segs) of
        [] \<Rightarrow> None
      | row # _ \<Rightarrow> Some row)"

definition edge_of :: "segment \<Rightarrow> edge_attr option" where
  "edge_of row = map_option (\<lambda>g. \<lparr>weight = longitud row, geometry = g\<rparr>) (seg_geometry row)"

text \<open>Two records with the same endpoint pair and different lengths.\<close>

definition parallel_table :: "segment list" where
  "parallel_table =
     [\<lparr>union_ini = 1, union_fin = 2, longitud = 100,
        seg_geometry = Some (LineString [(0, 0), (100, 0)])\<rparr>,
      \<lparr>union_ini = 1, union_fin = 2, longitud = 300,
        seg_geometry = Some (LineString [(0, 0), (50, 140), (100, 0)])\<rparr>]"

section \<open>Map matching (map\_matcher.py)\<close>

text \<open>
  The road table of the matcher: rows with their index label and a geometry of a type
  \<open>'r\<close>. Two shapely operations on a road geometry are parameters of the model: its
  bounding box \<open>bounds\<close> and the distance \<open>distance\<close> from a point to it, in degrees. The
  track is the list of its coordinates.
\<close>

type_synonym bbox = "real \<times> real \<times> real \<times> real"

record 'r map_matcher =
  gpx :: "point list"
  rnc_gdf :: "(int \<times> 'r) list"
  buffer_m :: real
  buffer_deg :: real

text \<open>\<^verbatim>\<open>MapMatcher.__init__\<close>\<close>

definition new_map_matcher :: "point list \<Rightarrow> (int \<times> 'r) list \<Rightarrow> real \<Rightarrow> 'r map_matcher" where
  "new_map_matcher gpx_linestring rnc buffer_tolerance_m =
     \<lparr>gpx = gpx_linestring, rnc_gdf = rnc, buffer_m = buffer_tolerance_m,
      buffer_deg = buffer_tolerance_m / 111000\<rparr>"

text \<open>\<^verbatim>\<open>point.buffer(r).bounds\<close>: the square around the point.\<close>

definition point_buffer_bounds :: "point \<Rightarrow> real \<Rightarrow> bbox" where
  "point_buffer_bounds p r = (fst p - r, snd p - r, fst p + r, snd p + r)"

definition boxes_intersect :: "bbox \<Rightarrow> bbox \<Rightarrow> bool" where
  "boxes_intersect a b =
     (case a of (ax0, ay0, ax1, ay1) \<Rightarrow>
        case b of (bx0, by0, bx1, by1) \<Rightarrow>
          ax0 \<le> bx1 \<and> bx0 \<le> ax1 \<and> ay0 \<le> by1 \<and> by0 \<le> ay1)"

text \<open>
  \<^verbatim>\<open>sindex.intersection(bounds)\<close>: the positions of the rows whose bounding box meets
  the query box (in table order here; the index does not fix an order).
\<close>

definition sindex_intersection :: "('r \<Rightarrow> bbox) \<Rightarrow> (int \<times> 'r) list \<Rightarrow> bbox \<Rightarrow> nat list" where
  "sindex_intersection bounds rnc q =
     filter (\<lambda>i. boxes_intersect (bounds (snd (rnc ! i))) q) [0 ..< length rnc]"

text \<open>\<^verbatim>\<open>candidates = self.rnc_gdf.iloc[possible_matches_idx]\<close>\<close>

definition candidates :: "('r \<Rightarrow> bbox) \<Rightarrow> 'r map_matcher \<Rightarrow> point \<Rightarrow> (int \<times> 'r) list" where
  "candidates bounds mm p =
     map (\<lambda>i. rnc_gdf mm ! i)
       (sindex_intersection bounds (rnc_gdf mm) (point_buffer_bounds p (buffer_deg mm)))"

text \<open>
  The loop over the candidates, from \<^verbatim>\<open>min_dist = float('inf')\<close> (\<open>None\<close> here) and
  \<^verbatim>\<open>best_match = None\<close>.
\<close>

fun nearest_candidate ::
  "(point \<Rightarrow> 'r \<Rightarrow> real) \<Rightarrow> point \<Rightarrow> (int \<times> 'r) list \<Rightarrow> real option \<times> int option
     \<Rightarrow> real option \<times> int option" where
  "nearest_candidate distance p [] st = st"
| "nearest_candidate distance p ((idx, g) # rest) (min_dist, best_match) =
     (if (case min_dist of None \<Rightarrow> True | Some m \<Rightarrow> distance p g < m)
      then nearest_candidate distance p rest (Some (distance p g), Some idx)
      else nearest_candidate distance p rest (min_dist, best_match))"

text \<open>
  The body of the loop over the track points: \<open>None\<close> when the point is unmatched, else
  the index of the matched row and the distance in metres.
\<close>

definition match_point ::
  "('r \<Rightarrow> bbox) \<Rightarrow> (point \<Rightarrow> 'r \<Rightarrow> real) \<Rightarrow> 'r map_matcher \<Rightarrow> point \<Rightarrow> (int \<times> real) option" where
  "match_point bounds distance mm p =
     (let cands = candidates bounds mm p
      in if cands = [] then None
         else
           (case nearest_candidate distance p cands (None, None) of
              (Some min_dist, Some best_match) \<Rightarrow>
                let dist_m = min_dist * 111000
                in if dist_m \<le> buffer_m mm then Some (best_match, dist_m) else None
            | _ \<Rightarrow> None))"

record matched_segment =
  seg_index :: int
  distance_m :: real
  orden :: nat

fun match_loop ::
  "('r \<Rightarrow> bbox) \<Rightarrow> (point \<Rightarrow> 'r \<Rightarrow> real) \<Rightarrow> 'r map_matcher \<Rightarrow> nat \<Rightarrow> point list
     \<Rightarrow> matched_segment list \<times> real list \<times> nat \<Rightarrow> matched_segment list \<times> real list \<times> nat" where
  "match_loop bounds distance mm i [] st = st"
| "match_loop bounds distance mm i (p # rest) (segs, distances, unmatched_count) =
     (case match_point bounds distance mm p of
        None \<Rightarrow> match_loop bounds distance mm (Suc i) rest (segs, distances, unmatched_count + 1)
      | Some (best_match, dist_m) \<Rightarrow>
          match_loop bounds distance mm (Suc i) rest
            (segs @ [\<lparr>seg_index = best_match, distance_m = dist_m, orden = i\<rparr>],
             distances @ [dist_m], unmatched_count))"

record match_result =
  matched_segments :: "matched_segment list"
  confidence :: real
  distance_avg_m :: "real option"
  unmatched_points :: nat
  total_points :: nat
  match_rate_pct :: real

text \<open>
  \<^verbatim>\<open>MapMatcher.match\<close>, without the aligned geometry. The average is
  \<^verbatim>\<open>np.mean(distances)\<close>; a zero tolerance makes the confidence formula raise.
\<close>

definition match :: "('r \<Rightarrow> bbox) \<Rightarrow> (point \<Rightarrow> 'r \<Rightarrow> real) \<Rightarrow> 'r map_matcher \<Rightarrow> py_error + match_result" where
  "match bounds distance mm =
     (case match_loop bounds distance mm 0 (gpx mm) ([], [], 0) of
        (segs, distances, unmatched_count) \<Rightarrow>
          let total = length (gpx mm);
              rate = (if 0 < total
                      then py_round ((1 - real unmatched_count / real total) * 100) 1 else 0)
          in if distances \<noteq> [] then
               let avg = sum_list distances / real (length distances)
               in (case py_truediv avg (buffer_m mm) of
                     Inl e \<Rightarrow> Inl e
                   | Inr q \<Rightarrow>
                       Inr \<lparr>matched_segments = segs,
                            confidence = py_round (max 0 (100 - q * 100)) 1,
                            distance_avg_m = (if avg \<noteq> 0 then Some (py_round avg 1) else None),
                            unmatched_points = unmatched_count,
                            total_points = total,
                            match_rate_pct = rate\<rparr>)
             else
               Inr \<lparr>matched_segments = segs, confidence = py_round 0 1, distance_avg_m = None,
                    unmatched_points = unmatched_count, total_points = total,
                    match_rate_pct = rate\<rparr>)"

text \<open>
  An instance for the examples: a road geometry is a horizontal segment
  \<open>(x0, x1, y)\<close>, in degrees.
\<close>

definition hseg_bounds :: "real \<times> real \<times> real \<Rightarrow> bbox" where
  "hseg_bounds g = (case g of (x0, x1, y) \<Rightarrow> (x0, y, x1, y))"

definition hseg_distance :: "point \<Rightarrow> real \<times> real \<times> real \<Rightarrow> real" where
  "hseg_distance p g =
     (case g of (x0, x1, y) \<Rightarrow>
        if fst p < x0 then euclid p (x0, y)
        else if x1 < fst p then euclid p (x1, y)
        else \<bar>snd p - y\<bar>)"

text \<open>
  One road along the x-axis, indexed 7, and a track of two points above it: the first
  40 m from the road, the second 60 m from it (one degree being 111000 m).
\<close>

definition two_point_matcher :: "(real \<times> real \<times> real) map_matcher" where
  "two_point_matcher =
     new_map_matcher [(1 / 2, 40 / 111000), (1 / 2, 60 / 111000)] [(7, (0, 1, 0))] 50"

section \<open>Road attributes (road\_analyzer.py)\<close>

text \<open>
  A row of the road table as \<^verbatim>\<open>RoadAnalyzer.analyze\<close> reads it: the length of the
  geometry, in degrees, and the three attribute columns, \<open>None\<close> for a column that the
  table does not have (\<^verbatim>\<open>row.get(column, 'N/A')\<close> then gives \<^verbatim>\<open>'N/A'\<close>). The table is
  looked up by index label with \<^verbatim>\<open>.loc\<close>, which raises \<^verbatim>\<open>KeyError\<close> on a label it
  does not have. \<^verbatim>\<open>str\<close> of a number is a parameter \<open>num_str\<close> of the model.
\<close>

record rnc_row =
  geometry_length :: real
  cond_pav :: "cell option"
  administra :: "cell option"
  tipo_vial :: "cell option"

definition is_space :: "char \<Rightarrow> bool" where
  "is_space c = (c \<in> {CHR '' '', CHR 0x09, CHR 0x0A, CHR 0x0B, CHR 0x0C, CHR 0x0D})"

text \<open>\<^verbatim>\<open>str.strip()\<close>\<close>

definition py_strip :: "string \<Rightarrow> string" where
  "py_strip s = rev (dropWhile is_space (rev (dropWhile is_space s)))"

text \<open>\<^verbatim>\<open>not v or pd.isna(v)\<close>\<close>

definition falsy_or_na :: "cell \<Rightarrow> bool" where
  "falsy_or_na v = (case v of CNone \<Rightarrow> True | CNaN \<Rightarrow> True | CStr s \<Rightarrow> s = [] | CNum x \<Rightarrow> x = 0)"

definition py_str :: "(real \<Rightarrow> string) \<Rightarrow> cell \<Rightarrow> string" where
  "py_str num_str v =
     (case v of CNone \<Rightarrow> ''None'' | CNaN \<Rightarrow> ''nan'' | CStr s \<Rightarrow> s | CNum x \<Rightarrow> num_str x)"

text \<open>
  \<^verbatim>\<open>not v or pd.isna(v) or str(v).strip() in ['N/A', 'n/a', '']\<close>: the value counts as
  not available.
\<close>

definition not_available :: "(real \<Rightarrow> string) \<Rightarrow> cell \<Rightarrow> bool" where
  "not_available num_str v =
     (falsy_or_na v \<or> py_strip (py_str num_str v) \<in> {''N/A'', ''n/a'', ''''})"

definition row_get :: "cell option \<Rightarrow> cell" where
  "row_get col = (case col of None \<Rightarrow> CStr ''N/A'' | Some v \<Rightarrow> v)"

text \<open>\<^verbatim>\<open>d[k] += v\<close> on a \<^verbatim>\<open>defaultdict\<close> whose default is zero.\<close>

definition bump :: "'k \<Rightarrow> 'v::{zero,plus} \<Rightarrow> ('k \<times> 'v) list \<Rightarrow> ('k \<times> 'v) list" where
  "bump k v d =
     (case map_of d k of
        None \<Rightarrow> d @ [(k, 0 + v)]
      | Some x \<Rightarrow> AList.update k (x + v) d)"

text \<open>
  \<^verbatim>\<open>segment_usage\<close>: how many track points matched each segment, keyed by segment
  index in the order of first use.
\<close>

definition segment_usage :: "matched_segment list \<Rightarrow> (int \<times> nat) list" where
  "segment_usage matched = fold (\<lambda>seg d. bump (seg_index seg) 1 d) matched []"

text \<open>
  The first loop: the length in km of every used segment and their total
  \<^verbatim>\<open>distancia_rnc_km\<close>.
\<close>

fun length_loop ::
  "(int \<times> rnc_row) list \<Rightarrow> int list \<Rightarrow> (int \<times> real) list \<times> real
     \<Rightarrow> py_error + (int \<times> real) list \<times> real" where
  "length_loop rnc [] st = Inr st"
| "length_loop rnc (idx # rest) (segment_lengths, distancia) =
     (case map_of rnc idx of
        None \<Rightarrow> Inl KeyError
      | Some row \<Rightarrow>
          let segment_length_km = geometry_length row * 111
          in length_loop rnc rest
               (AList.update idx segment_length_km segment_lengths,
                distancia + segment_length_km))"

record road_totals =
  distancia_rnc_km :: "real option"
  superficie :: "(string \<times> real) list"
  administracion :: "(string \<times> real) list"
  tipo_vialidad :: "(string \<times> real) list"
  superficie_na_km :: real
  administracion_na_km :: real

text \<open>The body of the second loop, for one used segment of length \<open>km\<close>.\<close>

definition bucket_row :: "(real \<Rightarrow> string) \<Rightarrow> rnc_row \<Rightarrow> real \<Rightarrow> road_totals \<Rightarrow> road_totals" where
  "bucket_row num_str row km st =
     (let sup = row_get (cond_pav row);
          sup_na = not_available num_str sup;
          admin = row_get (administra row);
          admin_na = not_available num_str admin;
          tipo = row_get (tipo_vial row)
      in st\<lparr>superficie :=
               bump (if sup_na then ''Con pavimento'' else py_str num_str sup) km (superficie st),
             superficie_na_km := (if sup_na then superficie_na_km st + km else superficie_na_km st),
             administracion :=
               bump (if admin_na then ''Municipal'' else py_str num_str admin) km
                 (administracion st),
             administracion_na_km :=
               (if admin_na then administracion_na_km st + km else administracion_na_km st),
             tipo_vialidad :=
               bump (if falsy_or_na tipo then ''N/A'' else py_str num_str tipo) km
                 (tipo_vialidad st)\<rparr>)"

fun bucket_loop ::
  "(real \<Rightarrow> string) \<Rightarrow> (int \<times> rnc_row) list \<Rightarrow> (int \<times> real) list \<Rightarrow> int list \<Rightarrow> road_totals
     \<Rightarrow> py_error + road_totals" where
  "bucket_loop num_str rnc segment_lengths [] st = Inr st"
| "bucket_loop num_str rnc segment_lengths (idx # rest) st =
     (case map_of rnc idx of
        None \<Rightarrow> Inl KeyError
      | Some row \<Rightarrow>
          (case map_of segment_lengths idx of
             None \<Rightarrow> Inl KeyError
           | Some km \<Rightarrow> bucket_loop num_str rnc segment_lengths rest (bucket_row num_str row km st)))"

definition empty_totals :: road_totals where
  "empty_totals =
     \<lparr>distancia_rnc_km = None, superficie = [], administracion = [], tipo_vialidad = [],
      superficie_na_km = 0, administracion_na_km = 0\<rparr>"

text \<open>
  The two loops of \<^verbatim>\<open>analyze\<close>: the accumulators as they stand before the
  \<^verbatim>\<open>return\<close> statement rounds them.
\<close>

definition analyze_totals ::
  "(real \<Rightarrow> string) \<Rightarrow> (int \<times> rnc_row) list \<Rightarrow> matched_segment list \<Rightarrow> py_error + road_totals" where
  "analyze_totals num_str rnc matched =
     (let keys = map fst (segment_usage matched)
      in (case length_loop rnc keys ([], 0) of
            Inl e \<Rightarrow> Inl e
          | Inr (segment_lengths, distancia) \<Rightarrow>
              bucket_loop num_str rnc segment_lengths keys
                (empty_totals\<lparr>distancia_rnc_km := Some distancia\<rparr>)))"

definition round_totals :: "road_totals \<Rightarrow> road_totals" where
  "round_totals t =
     \<lparr>distancia_rnc_km = map_option (\<lambda>x. py_round x 3) (distancia_rnc_km t),
      superficie = map (\<lambda>(k, v). (k, py_round v 3)) (superficie t),
      administracion = map (\<lambda>(k, v). (k, py_round v 3)) (administracion t),
      tipo_vialidad = map (\<lambda>(k, v). (k, py_round v 3)) (tipo_vialidad t),
      superficie_na_km = py_round (superficie_na_km t) 3,
      administracion_na_km = py_round (administracion_na_km t) 3\<rparr>"

text \<open>
  \<^verbatim>\<open>RoadAnalyzer.analyze\<close>: without matched segments it returns
  \<^verbatim>\<open>_empty_stats()\<close>, which has no total; else every figure is rounded to three
  decimals.
\<close>

definition analyze ::
  "(real \<Rightarrow> string) \<Rightarrow> (int \<times> rnc_row) list \<Rightarrow> matched_segment list \<Rightarrow> py_error + road_totals" where
  "analyze num_str rnc matched =
     (if matched = [] then Inr empty_totals
      else (case analyze_totals num_str rnc matched of
              Inl e \<Rightarrow> Inl e
            | Inr t \<Rightarrow> Inr (round_totals t)))"

text \<open>
  Two matched segments of 1.0004 km and 2.0004 km (lengths in degrees, one degree
  being 111 km), the first paved and the second not, the first matched by two points.
\<close>

definition two_road_table :: "(int \<times> rnc_row) list" where
  "two_road_table =
     [(1, \<lparr>geometry_length = 10004 / 1110000, cond_pav = Some (CStr ''Con pavimento''),
           administra = Some (CStr ''Federal''), tipo_vial = Some (CStr ''Carretera'')\<rparr>),
      (2, \<lparr>geometry_length = 20004 / 1110000, cond_pav = Some (CStr ''Sin pavimento''),
           administra = Some (CStr ''Federal''), tipo_vial = Some (CStr ''Camino'')\<rparr>)]"

definition two_road_matches :: "matched_segment list" where
  "two_road_matches =
     [\<lparr>seg_index = 1, distance_m = 3, orden = 0\<rparr>,
      \<lparr>seg_index = 1, distance_m = 5, orden = 1\<rparr>,
      \<lparr>seg_index = 2, distance_m = 4, orden = 2\<rparr>]"

text \<open>The length in km that \<^verbatim>\<open>analyze\<close> gives the segment of an index label.\<close>

definition segment_km :: "(int \<times> rnc_row) list \<Rightarrow> int \<Rightarrow> real" where
  "segment_km rnc idx = (case map_of rnc idx of None \<Rightarrow> 0 | Some row \<Rightarrow> geometry_length row * 111)"

section \<open>Zones: blocks and localities (service\_area\_analyzer.py, locality\_detector.py)\<close>

text \<open>
  \<^verbatim>\<open>Graph.edges(data=True)\<close>: every edge once, from the node that comes first in the
  adjacency; \<open>seen\<close> are the nodes already done.
\<close>

fun graph_edges :: "nxgraph \<Rightarrow> node list \<Rightarrow> (node \<times> node \<times> edge_attr) list" where
  "graph_edges [] seen = []"
| "graph_edges ((n, nbrs) # rest) seen =
     map (\<lambda>(nbr, dd). (n, nbr, dd)) (filter (\<lambda>(nbr, dd). nbr \<notin> set seen) nbrs)
       @ graph_edges rest (n # seen)"

text \<open>
  \<^verbatim>\<open>get_service_area_polygon\<close>: the geometries of the edges whose two ends are
  reachable and the points of the reachable nodes, merged and buffered. Without a graph
  \<^verbatim>\<open>self.graph.edges\<close> raises \<^verbatim>\<open>AttributeError\<close>.
\<close>

definition get_service_area_polygon ::
  "'g shapely \<Rightarrow> network_analyzer \<Rightarrow> node list \<Rightarrow> real \<Rightarrow> py_error + 'g option" where
  "get_service_area_polygon sh na service_area_nodes buffer_distance =
     (if service_area_nodes = [] then Inr None
      else
        (case graph na of
           None \<Rightarrow> Inl AttributeError
         | Some G \<Rightarrow>
             let edge_geoms =
                   map (\<lambda>(u, v, dd). of_geom sh (geometry dd))
                     (filter (\<lambda>(u, v, dd). u \<in> set service_area_nodes \<and> v \<in> set service_area_nodes)
                        (graph_edges G []));
                 node_geoms =
                   concat (map (\<lambda>node_id. case map_of (node_coords na) node_id of
                                   None \<Rightarrow> [] | Some c \<Rightarrow> [of_point sh c])
                             service_area_nodes);
                 geometries = edge_geoms @ node_geoms
             in if geometries = [] then Inr None
                else Inr (Some (buffer sh (unary_union sh geometries) buffer_distance))))"

text \<open>
  The loop of \<^verbatim>\<open>_analyze_with_network\<close> over the blocks that meet the service-area
  polygon: a block that is not a direct one is added when its centroid passes the
  reachability test.
\<close>

fun centroid_loop ::
  "'g shapely \<Rightarrow> network_analyzer \<Rightarrow> node list \<Rightarrow> (node \<times> real) list \<Rightarrow> real \<Rightarrow> int list
     \<Rightarrow> (int \<times> 'g) list \<Rightarrow> int list \<Rightarrow> py_error + int list" where
  "centroid_loop sh na nodes node_distances max_distance direct_indices [] filtered_indices =
     Inr filtered_indices"
| "centroid_loop sh na nodes node_distances max_distance direct_indices (row # rest) filtered_indices =
     (if fst row \<in> set direct_indices
      then centroid_loop sh na nodes node_distances max_distance direct_indices rest filtered_indices
      else
        (case is_point_in_service_area na (centroid sh (snd row)) (set nodes) node_distances
                max_distance of
           Inl e \<Rightarrow> Inl e
         | Inr (is_reachable, total_dist) \<Rightarrow>
             centroid_loop sh na nodes node_distances max_distance direct_indices rest
               (if is_reachable then set_add (fst row) filtered_indices else filtered_indices)))"

text \<open>\<^verbatim>\<open>frame.loc[labels]\<close>: the rows of each label, label after label.\<close>

definition loc_rows :: "(int \<times> 'a) list \<Rightarrow> int list \<Rightarrow> (int \<times> 'a) list" where
  "loc_rows frame labels = concat (map (\<lambda>l. filter (\<lambda>row. fst row = l) frame) labels)"

text \<open>
  \<^verbatim>\<open>ServiceAreaAnalyzer._analyze_with_network\<close>. The blocks are rows of an index label
  and a projected polygon; the result is the table of the served blocks.
\<close>

definition analyze_with_network ::
  "'g shapely \<Rightarrow> (int \<times> 'g) list \<Rightarrow> network_analyzer \<Rightarrow> 'g \<Rightarrow> 'g \<Rightarrow> real
     \<Rightarrow> py_error + (int \<times> 'g) list" where
  "analyze_with_network sh manzanas_gdf na route_geometry route_projected buffer_distance_m =
     (let route_direct_buffer = buffer sh route_projected 50;
          manzanas_direct = filter (\<lambda>row. intersects sh (snd row) route_direct_buffer) manzanas_gdf;
          direct_indices = remdups (map fst manzanas_direct)
      in (case calculate_service_area sh na route_geometry buffer_distance_m of
            Inl e \<Rightarrow> Inl e
          | Inr (service_area_nodes, node_distances) \<Rightarrow>
              if service_area_nodes = [] then Inr manzanas_direct
              else
                (case get_service_area_polygon sh na service_area_nodes 50 of
                   Inl e \<Rightarrow> Inl e
                 | Inr None \<Rightarrow> Inr manzanas_direct
                 | Inr (Some service_area_polygon) \<Rightarrow>
                     let manzanas_in_service_area =
                           filter (\<lambda>row. intersects sh (snd row) service_area_polygon) manzanas_gdf
                     in (case centroid_loop sh na service_area_nodes node_distances
                                buffer_distance_m direct_indices manzanas_in_service_area
                                direct_indices of
                           Inl e \<Rightarrow> Inl e
                         | Inr filtered_indices \<Rightarrow> Inr (loc_rows manzanas_gdf filtered_indices)))))"

subsection \<open>Localities\<close>

text \<open>
  A locality of the Marco Geoestad\'istico with the columns the detector reads, as
  strings, and its polygon in geographic coordinates; a municipality likewise.
\<close>

record 'g locality =
  loc_index :: int
  loc_geometry :: 'g
  loc_cve_mun :: string
  loc_ambito :: string
  loc_cvegeo :: string
  loc_nomgeo :: string

record 'g municipio =
  mun_geometry :: 'g
  mun_cve_mun :: string
  mun_nomgeo :: string
  mun_cvegeo :: string

record loc_data =
  ld_cvegeo :: string
  ld_nombre :: string
  ld_cve_mun :: string
  ld_ambito :: string
  ld_distancia_red_m :: "real option"

record mun_data =
  md_cve_mun :: string
  md_nombre :: string
  md_cvegeo :: string
  localidades_urbanas :: "loc_data list"
  localidades_rurales :: "loc_data list"

record detect_result =
  municipios :: "mun_data list"
  total_municipios :: nat
  total_urbanas :: nat
  total_rurales :: nat
  total_localidades :: nat
  network_analysis :: bool

record 'g locality_detector =
  marco_gdf :: "'g locality list"
  municipios_gdf :: "'g municipio list option"
  ld_buffer_m :: real
  ld_buffer_deg :: real
  ld_network_analyzer :: network_analyzer

text \<open>\<^verbatim>\<open>LocalityDetector.__init__\<close>\<close>

definition new_locality_detector ::
  "'g locality list \<Rightarrow> 'g municipio list option \<Rightarrow> real \<Rightarrow> network_analyzer \<Rightarrow> 'g locality_detector" where
  "new_locality_detector marco muns buffer_meters na =
     \<lparr>marco_gdf = marco, municipios_gdf = muns, ld_buffer_m = buffer_meters,
      ld_buffer_deg = buffer_meters / 111000, ld_network_analyzer = na\<rparr>"

text \<open>The entries that the municipalities meeting the area get, before any locality.\<close>

definition municipios_intersecting ::
  "'g municipio list \<Rightarrow> ('g \<Rightarrow> bool) \<Rightarrow> (string \<times> mun_data) list" where
  "municipios_intersecting muns hits =
     fold (\<lambda>row md.
             AList.update (mun_cve_mun row)
               \<lparr>md_cve_mun = mun_cve_mun row, md_nombre = mun_nomgeo row,
                md_cvegeo = mun_cvegeo row, localidades_urbanas = [], localidades_rurales = []\<rparr> md)
          (filter (\<lambda>row. hits (mun_geometry row)) muns) []"

text \<open>
  The name given to a municipality first met through one of its localities:
  \<^verbatim>\<open>'Municipio ' + cve_mun\<close>, or the name of the first municipality row of that key.
\<close>

definition municipio_name :: "'g municipio list option \<Rightarrow> string \<Rightarrow> string" where
  "municipio_name muns cve_mun =
     (case muns of
        None \<Rightarrow> ''Municipio '' @ cve_mun
      | Some mun_rows \<Rightarrow>
          (case filter (\<lambda>row. mun_cve_mun row = cve_mun) mun_rows of
             [] \<Rightarrow> ''Municipio '' @ cve_mun
           | row # _ \<Rightarrow> mun_nomgeo row))"

text \<open>
  The end of the loop body over the localities, the same in both detection paths: the
  municipality entry is created when missing, and the locality is appended to its urban
  or rural list.
\<close>

definition add_locality ::
  "'g municipio list option \<Rightarrow> loc_data \<Rightarrow> (string \<times> mun_data) list \<Rightarrow> (string \<times> mun_data) list" where
  "add_locality muns ld md =
     (let cve_mun = ld_cve_mun ld;
          md1 = (if cve_mun \<noteq> [] \<and> map_of md cve_mun = None
                 then md @ [(cve_mun,
                        \<lparr>md_cve_mun = cve_mun, md_nombre = municipio_name muns cve_mun,
                         md_cvegeo = [], localidades_urbanas = [], localidades_rurales = []\<rparr>)]
                 else md)
      in if cve_mun \<noteq> [] then
           (case map_of md1 cve_mun of
              None \<Rightarrow> md1
            | Some m \<Rightarrow>
                if ld_ambito ld = ''Urbana''
                then AList.update cve_mun (m\<lparr>localidades_urbanas := localidades_urbanas m @ [ld]\<rparr>) md1
                else if ld_ambito ld = ''Rural''
                then AList.update cve_mun (m\<lparr>localidades_rurales := localidades_rurales m @ [ld]\<rparr>) md1
                else md1)
         else md1)"

definition make_loc_data :: "'g locality \<Rightarrow> real option \<Rightarrow> loc_data" where
  "make_loc_data row d =
     \<lparr>ld_cvegeo = loc_cvegeo row, ld_nombre = loc_nomgeo row, ld_cve_mun = loc_cve_mun row,
      ld_ambito = py_strip (loc_ambito row), ld_distancia_red_m = d\<rparr>"

text \<open>The dictionary returned: the municipalities sorted by name, and the counts.\<close>

definition make_result :: "(string \<times> mun_data) list \<Rightarrow> bool \<Rightarrow> detect_result" where
  "make_result md network =
     (let municipios_list = sort_key md_nombre (map snd md);
          urbanas = sum_list (map (\<lambda>m. length (localidades_urbanas m)) municipios_list);
          rurales = sum_list (map (\<lambda>m. length (localidades_rurales m)) municipios_list)
      in \<lparr>municipios = municipios_list, total_municipios = length municipios_list,
          total_urbanas = urbanas, total_rurales = rurales,
          total_localidades = urbanas + rurales, network_analysis = network\<rparr>)"

text \<open>\<^verbatim>\<open>_detect_euclidean(buffered)\<close>, on the geographic geometries.\<close>

definition detect_euclidean :: "'g shapely \<Rightarrow> 'g locality_detector \<Rightarrow> 'g \<Rightarrow> detect_result" where
  "detect_euclidean sh det buffered =
     (let md0 = (case municipios_gdf det of
                   None \<Rightarrow> []
                 | Some muns \<Rightarrow> municipios_intersecting muns (\<lambda>g. intersects sh g buffered));
          intersecting = filter (\<lambda>row. intersects sh (loc_geometry row) buffered) (marco_gdf det)
      in make_result
           (fold (\<lambda>row md. add_locality (municipios_gdf det) (make_loc_data row None) md)
              intersecting md0)
           False)"

text \<open>
  The loop of \<^verbatim>\<open>_detect_with_network\<close> over the localities that meet the service-area
  polygon: a locality whose centroid fails the reachability test is skipped.
\<close>

fun locality_loop ::
  "'g shapely \<Rightarrow> 'g locality_detector \<Rightarrow> node list \<Rightarrow> (node \<times> real) list \<Rightarrow> 'g locality list
     \<Rightarrow> (string \<times> mun_data) list \<Rightarrow> py_error + (string \<times> mun_data) list" where
  "locality_loop sh det nodes node_distances [] md = Inr md"
| "locality_loop sh det nodes node_distances (row # rest) md =
     (case is_point_in_service_area (ld_network_analyzer det)
             (centroid sh (to_utm sh (loc_geometry row))) (set nodes) node_distances
             (ld_buffer_m det) of
        Inl e \<Rightarrow> Inl e
      | Inr (is_reachable, total_dist) \<Rightarrow>
          if \<not> is_reachable then locality_loop sh det nodes node_distances rest md
          else
            (case total_dist of
               None \<Rightarrow> Inl TypeError
             | Some d \<Rightarrow>
                 locality_loop sh det nodes node_distances rest
                   (add_locality (municipios_gdf det) (make_loc_data row (Some (py_round d 1))) md)))"

text \<open>\<^verbatim>\<open>LocalityDetector._detect_with_network\<close>\<close>

definition detect_with_network ::
  "'g shapely \<Rightarrow> 'g locality_detector \<Rightarrow> 'g \<Rightarrow> py_error + detect_result" where
  "detect_with_network sh det gpx_linestring =
     (case calculate_service_area sh (ld_network_analyzer det) gpx_linestring (ld_buffer_m det) of
        Inl e \<Rightarrow> Inl e
      | Inr (service_area_nodes, node_distances) \<Rightarrow>
          if service_area_nodes = []
          then Inr (detect_euclidean sh det (buffer sh gpx_linestring (ld_buffer_deg det)))
          else
            (case get_service_area_polygon sh (ld_network_analyzer det) service_area_nodes 50 of
               Inl e \<Rightarrow> Inl e
             | Inr None \<Rightarrow>
                 Inr (detect_euclidean sh det (buffer sh gpx_linestring (ld_buffer_deg det)))
             | Inr (Some service_area_polygon) \<Rightarrow>
                 let md0 = (case municipios_gdf det of
                              None \<Rightarrow> []
                            | Some muns \<Rightarrow>
                                municipios_intersecting muns
                                  (\<lambda>g. intersects sh (to_utm sh g) service_area_polygon));
                     localities_intersect =
                       filter (\<lambda>row. intersects sh (to_utm sh (loc_geometry row)) service_area_polygon)
                         (marco_gdf det)
                 in (case locality_loop sh det service_area_nodes node_distances
                            localities_intersect md0 of
                       Inl e \<Rightarrow> Inl e
                     | Inr md \<Rightarrow> Inr (make_result md True))))"

text \<open>
  A zone on the example road: the segment from 340 m to 5000 m of the x-axis. The track
  runs from 0 to 300 m, so the zone meets the 50 m corridor of the track, which ends at
  350 m; the centroid of the zone, at 2670 m, has node 4 as nearest node, 900 m from the
  nearer seed along the road.
\<close>

definition long_zone :: "real \<times> real" where
  "long_zone = (340, 5000)"

definition long_locality :: "(real \<times> real) locality" where
  "long_locality =
     \<lparr>loc_index = 0, loc_geometry = long_zone, loc_cve_mun = ''048'', loc_ambito = ''Urbana'',
      loc_cvegeo = ''130480001'', loc_nomgeo = ''Pachuca de Soto''\<rparr>"

definition road_detector :: "(real \<times> real) locality_detector" where
  "road_detector = new_locality_detector [long_locality] None 700 road_analyzer"

text \<open>
  Three blocks on the example road: the long zone, a block far from the served part of
  the road, and a block between nodes 2 and 3.
\<close>

definition road_blocks :: "(int \<times> real \<times> real) list" where
  "road_blocks = [(0, long_zone), (1, (2000, 2100)), (2, (600, 700))]"

section \<open>Theorems\<close>

lemma discapacidad_total_aggregate_row_fold:
  "discapacidad_porcentaje (fold (aggregate_row pf cols) rs st) = discapacidad_porcentaje st"
  by (induction rs arbitrary: st) (simp_all add: aggregate_row_def)

text \<open>
  C9. The aggregation never raises. It divides the disability count by the total
  population only when the total population is strictly positive, and then reports the
  quotient times 100 rounded to two decimals; otherwise the percentage is 0. In
  particular a table with total population 100 and disability count 0 yields
  percentage 0.
\<close>

theorem aggregate_population_porcentaje:
  "\<exists>st. aggregate_population pf manzanas = Inr st
     \<and> discapacidad_porcentaje st =
         (if 0 < poblacion_total st
          then py_round (real_of_int (discapacidad_total st) / real_of_int (poblacion_total st) * 100) 2
          else 0)
     \<and> (poblacion_total st = 100 \<and> discapacidad_total st = 0
          \<longrightarrow> discapacidad_porcentaje st = 0)"
proof -
  define st where "st = fold (aggregate_row pf (columns manzanas)) (rows manzanas) empty_stats"
  have p0: "discapacidad_porcentaje st = 0"
    unfolding st_def by (simp add: discapacidad_total_aggregate_row_fold empty_stats_def)
  have round0: "py_round 0 2 = 0"
    by (simp add: py_round_def round_half_even_def)
  show ?thesis
  proof (cases "0 < poblacion_total st")
    case True
    then have "aggregate_population pf manzanas =
        Inr (st\<lparr>discapacidad_porcentaje :=
          py_round (real_of_int (discapacidad_total st) / real_of_int (poblacion_total st) * 100) 2\<rparr>)"
      by (simp add: aggregate_population_def st_def [symmetric] py_truediv_def Let_def)
    with True round0 show ?thesis by simp
  next
    case False
    then have "aggregate_population pf manzanas = Inr st"
      by (simp add: aggregate_population_def st_def [symmetric] Let_def)
    with False p0 show ?thesis by simp
  qed
qed

theorem aggregate_population_porcentaje_witness:
  "\<exists>st. aggregate_population (\<lambda>s. None) block_100_0 = Inr st
     \<and> poblacion_total st = 100 \<and> discapacidad_total st = 0
     \<and> discapacidad_porcentaje st = 0"
proof -
  obtain st where st: "aggregate_population (\<lambda>s. None) block_100_0 = Inr st"
    and imp: "poblacion_total st = 100 \<and> discapacidad_total st = 0
          \<longrightarrow> discapacidad_porcentaje st = 0"
    using aggregate_population_porcentaje [of "\<lambda>s. None" block_100_0] by blast
  have ev: "aggregate_population (\<lambda>s. None) block_100_0 =
      Inr (fold (aggregate_row (\<lambda>s. None) census_labels) (rows block_100_0) empty_stats
            \<lparr>discapacidad_porcentaje := 0\<rparr>)"
    by (simp add: aggregate_population_def block_100_0_def census_labels_def aggregate_row_def
        col_at_def add_col_def to_int_def py_int_def empty_stats_def py_truediv_def
        py_round_def round_half_even_def Let_def)
  have tot: "poblacion_total st = 100 \<and> discapacidad_total st = 0"
    using st unfolding ev
    by (auto simp add: block_100_0_def census_labels_def aggregate_row_def
        col_at_def add_col_def to_int_def py_int_def empty_stats_def)
  with imp st show ?thesis by blast
qed

subsection \<open>The bounded search computes shortest distances\<close>

lemma edge_data_mem:
  "edge_data G u v = Some e \<Longrightarrow> \<exists>nbrs. (u, nbrs) \<in> set G \<and> (v, e) \<in> set nbrs \<and> map_of G u = Some nbrs"
  by (auto simp: edge_data_def split: option.splits dest: map_of_SomeD)

lemma edge_data_nonneg:
  "nonneg_weights G \<Longrightarrow> edge_data G u v = Some e \<Longrightarrow> 0 \<le> weight e"
  by (fastforce simp: nonneg_weights_def dest: edge_data_mem)

lemma edge_data_has_node:
  "nx_wellformed G \<Longrightarrow> edge_data G u v = Some e \<Longrightarrow> has_node G v"
  by (fastforce simp: nx_wellformed_def dest: edge_data_mem)

lemma walk_nonneg:
  "walk G s v d \<Longrightarrow> nonneg_weights G \<Longrightarrow> 0 \<le> d"
  by (induction rule: walk.induct) (auto dest: edge_data_nonneg)

lemma walk_has_node:
  "walk G s v d \<Longrightarrow> nx_wellformed G \<Longrightarrow> has_node G v"
  by (induction rule: walk.induct) (auto dest: edge_data_has_node)

lemma walk_leaves:
  "walk G s v d \<Longrightarrow> nonneg_weights G \<Longrightarrow> s \<in> F \<Longrightarrow> v \<notin> F \<Longrightarrow>
     \<exists>x y a e. x \<in> F \<and> y \<notin> F \<and> walk G s x a \<and> edge_data G x y = Some e \<and> a + weight e \<le> d"
proof (induction rule: walk.induct)
  case walk_refl
  then show ?case by simp
next
  case (walk_step u a v e)
  show ?case
  proof (cases "u \<in> F")
    case True
    with walk_step show ?thesis by blast
  next
    case False
    with walk_step obtain x y b e' where
      "x \<in> F" "y \<notin> F" "walk G s x b" "edge_data G x y = Some e'" "b + weight e' \<le> a"
      by blast
    moreover have "0 \<le> weight e" using walk_step by (auto dest: edge_data_nonneg)
    ultimately show ?thesis by (intro exI [of _ x] exI [of _ y] exI [of _ b] exI [of _ e']) simp
  qed
qed

lemma nbrs_edge_data:
  "nx_wellformed G \<Longrightarrow> map_of G v = Some nbrs \<Longrightarrow> ((u, e) \<in> set nbrs) = (edge_data G v u = Some e)"
  by (auto simp: nx_wellformed_def edge_data_def dest!: map_of_SomeD)

lemma shortest_dist_unique:
  "shortest_dist G s v d \<Longrightarrow> shortest_dist G s v d' \<Longrightarrow> d = d'"
  by (auto simp: shortest_dist_def intro: antisym)

lemma covered_mono:
  "covered dists fringe y b \<Longrightarrow> set fringe \<subseteq> set fringe' \<Longrightarrow> b \<le> b' \<Longrightarrow> covered dists fringe' y b'"
  unfolding covered_def by force

lemma relax_spec:
  assumes "\<forall>(u, e) \<in> set nbrs. \<forall>ud. map_of dists u = Some ud \<longrightarrow> ud \<le> dv + weight e"
    and "\<forall>y sy. map_of seen y = Some sy \<longrightarrow> covered dists fringe y sy"
  shows "\<exists>seen' fringe' c'. relax cutoff dists dv nbrs (seen, fringe, c) = Inr (seen', fringe', c')
     \<and> set fringe \<subseteq> set fringe'
     \<and> (\<forall>en \<in> set fringe' - set fringe.
           \<exists>e. (snd (snd en), e) \<in> set nbrs \<and> fst en = dv + weight e \<and> fst en \<le> cutoff)
     \<and> (\<forall>y sy. map_of seen' y = Some sy \<longrightarrow> covered dists fringe' y sy)
     \<and> (\<forall>(u, e) \<in> set nbrs. dv + weight e \<le> cutoff \<longrightarrow> covered dists fringe' u (dv + weight e))"
  using assms
proof (induction nbrs arbitrary: seen fringe c)
  case Nil
  then show ?case by simp
next
  case (Cons ue es)
  obtain u e where ue: "ue = (u, e)" by (cases ue)
  define vu where "vu = dv + weight e"
  have noerr: "\<forall>(u, e) \<in> set es. \<forall>ud. map_of dists u = Some ud \<longrightarrow> ud \<le> dv + weight e"
    using Cons.prems(1) by simp
  have keep: "?case" if same: "relax cutoff dists dv (ue # es) (seen, fringe, c)
        = relax cutoff dists dv es (seen, fringe, c)"
      and cov: "vu \<le> cutoff \<Longrightarrow> covered dists fringe u vu"
  proof -
    from Cons.IH [OF noerr Cons.prems(2), of c] obtain seen' fringe' c' where
      r: "relax cutoff dists dv es (seen, fringe, c) = Inr (seen', fringe', c')"
      and sub: "set fringe \<subseteq> set fringe'"
      and new: "\<forall>en \<in> set fringe' - set fringe.
           \<exists>e. (snd (snd en), e) \<in> set es \<and> fst en = dv + weight e \<and> fst en \<le> cutoff"
      and sn: "\<forall>y sy. map_of seen' y = Some sy \<longrightarrow> covered dists fringe' y sy"
      and cv: "\<forall>(u, e) \<in> set es. dv + weight e \<le> cutoff \<longrightarrow> covered dists fringe' u (dv + weight e)"
      by blast
    have cu: "vu \<le> cutoff \<longrightarrow> covered dists fringe' u vu"
      using cov sub by (auto intro: covered_mono)
    have r': "relax cutoff dists dv (ue # es) (seen, fringe, c) = Inr (seen', fringe', c')"
      using same r by simp
    have new': "\<forall>en \<in> set fringe' - set fringe.
           \<exists>e. (snd (snd en), e) \<in> set (ue # es) \<and> fst en = dv + weight e \<and> fst en \<le> cutoff"
    proof
      fix en assume "en \<in> set fringe' - set fringe"
      with new obtain e' where "(snd (snd en), e') \<in> set es" "fst en = dv + weight e'" "fst en \<le> cutoff"
        by blast
      then show "\<exists>e. (snd (snd en), e) \<in> set (ue # es) \<and> fst en = dv + weight e \<and> fst en \<le> cutoff"
        by (intro exI [of _ e']) simp
    qed
    have cv': "\<forall>(u, e) \<in> set (ue # es). dv + weight e \<le> cutoff \<longrightarrow> covered dists fringe' u (dv + weight e)"
      using cv cu by (simp add: ue vu_def)
    from r' sub new' sn cv' show ?thesis by blast
  qed
  show ?case
  proof (cases "cutoff < vu")
    case True
    then show ?thesis
      by (intro keep) (simp_all add: ue vu_def)
  next
    case far: False
    show ?thesis
    proof (cases "map_of dists u")
      case (Some ud)
      then have "ud \<le> vu" using Cons.prems(1) by (simp add: ue vu_def)
      moreover have "u \<in> fst ` set dists"
        using Some by (force dest: map_of_SomeD)
      ultimately show ?thesis
        using far Some by (intro keep) (simp_all add: ue vu_def covered_def)
    next
      case None
      show ?thesis
      proof (cases "map_of seen u = None \<or> vu < the (map_of seen u)")
        case False
        then obtain su where su: "map_of seen u = Some su" "su \<le> vu" by auto
        then have "covered dists fringe u su" using Cons.prems(2) by blast
        then have "covered dists fringe u vu" using su(2) by (auto intro: covered_mono)
        then show ?thesis
          using far None su by (intro keep) (simp_all add: ue vu_def)
      next
        case True
        define seen1 where "seen1 = AList.update u vu seen"
        define fringe1 where "fringe1 = fringe @ [(vu, c, u)]"
        have step: "relax cutoff dists dv (ue # es) (seen, fringe, c)
            = relax cutoff dists dv es (seen1, fringe1, Suc c)"
          using far None True by (simp add: ue vu_def seen1_def fringe1_def Let_def)
        have sn1: "\<forall>y sy. map_of seen1 y = Some sy \<longrightarrow> covered dists fringe1 y sy"
        proof (intro allI impI)
          fix y sy assume a: "map_of seen1 y = Some sy"
          show "covered dists fringe1 y sy"
          proof (cases "y = u")
            case True
            with a have "sy = vu" by (simp add: seen1_def update_conv')
            with True show ?thesis by (simp add: covered_def fringe1_def)
          next
            case False
            with a have "map_of seen y = Some sy" by (simp add: seen1_def update_conv')
            then have "covered dists fringe y sy" using Cons.prems(2) by blast
            then show ?thesis by (rule covered_mono) (auto simp: fringe1_def)
          qed
        qed
        from Cons.IH [OF noerr sn1, of "Suc c"] obtain seen' fringe' c' where
          r: "relax cutoff dists dv es (seen1, fringe1, Suc c) = Inr (seen', fringe', c')"
          and sub: "set fringe1 \<subseteq> set fringe'"
          and new: "\<forall>en \<in> set fringe' - set fringe1.
               \<exists>e. (snd (snd en), e) \<in> set es \<and> fst en = dv + weight e \<and> fst en \<le> cutoff"
          and sn: "\<forall>y sy. map_of seen' y = Some sy \<longrightarrow> covered dists fringe' y sy"
          and cv: "\<forall>(u, e) \<in> set es. dv + weight e \<le> cutoff \<longrightarrow> covered dists fringe' u (dv + weight e)"
          by blast
        have sub': "set fringe \<subseteq> set fringe'" using sub by (auto simp: fringe1_def)
        have new': "\<forall>en \<in> set fringe' - set fringe.
               \<exists>e. (snd (snd en), e) \<in> set (ue # es) \<and> fst en = dv + weight e \<and> fst en \<le> cutoff"
        proof
          fix en assume en: "en \<in> set fringe' - set fringe"
          show "\<exists>e. (snd (snd en), e) \<in> set (ue # es) \<and> fst en = dv + weight e \<and> fst en \<le> cutoff"
          proof (cases "en = (vu, c, u)")
            case True
            then show ?thesis using far by (auto simp: ue vu_def)
          next
            case False
            with en have "en \<in> set fringe' - set fringe1" by (simp add: fringe1_def)
            with new obtain e' where "(snd (snd en), e') \<in> set es" "fst en = dv + weight e'" "fst en \<le> cutoff"
              by blast
            then show ?thesis by (intro exI [of _ e']) simp
          qed
        qed
        have "(vu, c, u) \<in> set fringe'" using sub by (auto simp: fringe1_def)
        then have cu: "covered dists fringe' u vu" by (force simp: covered_def)
        have cv': "\<forall>(u, e) \<in> set (ue # es). dv + weight e \<le> cutoff \<longrightarrow> covered dists fringe' u (dv + weight e)"
          using cv cu by (simp add: ue vu_def)
        from r sub' new' sn cv' show ?thesis
          unfolding step by (intro exI [of _ seen'] exI [of _ fringe'] exI [of _ c']) blast
      qed
    qed
  qed
qed

lemma inv_distinct: "dijkstra_inv G s cutoff dists seen fringe \<Longrightarrow> distinct (map fst dists)"
  by (simp add: dijkstra_inv_def)

lemma inv_fin:
  "dijkstra_inv G s cutoff dists seen fringe \<Longrightarrow> map_of dists v = Some d
     \<Longrightarrow> shortest_dist G s v d \<and> (d \<le> cutoff \<or> v = s)"
  by (simp add: dijkstra_inv_def)

lemma inv_fr:
  "dijkstra_inv G s cutoff dists seen fringe \<Longrightarrow> en \<in> set fringe
     \<Longrightarrow> walk G s (snd (snd en)) (fst en) \<and> (fst en \<le> cutoff \<or> snd (snd en) = s)"
  by (simp add: dijkstra_inv_def)

lemma inv_mono:
  "dijkstra_inv G s cutoff dists seen fringe \<Longrightarrow> map_of dists v = Some dv \<Longrightarrow> en \<in> set fringe
     \<Longrightarrow> dv \<le> fst en"
  unfolding dijkstra_inv_def by (elim conjE) (erule allE [of _ v], erule allE [of _ dv], simp)

lemma inv_edges:
  "dijkstra_inv G s cutoff dists seen fringe \<Longrightarrow> map_of dists x = Some dx
     \<Longrightarrow> edge_data G x y = Some e \<Longrightarrow> dx + weight e \<le> cutoff
     \<Longrightarrow> covered dists fringe y (dx + weight e)"
  unfolding dijkstra_inv_def by (elim conjE) simp

lemma inv_seen:
  "dijkstra_inv G s cutoff dists seen fringe \<Longrightarrow> map_of seen y = Some sy
     \<Longrightarrow> covered dists fringe y sy"
  by (simp add: dijkstra_inv_def)

lemma inv_src:
  "dijkstra_inv G s cutoff dists seen fringe
     \<Longrightarrow> dists = [] \<and> fringe = [(0, 0, s)] \<or> s \<in> fst ` set dists"
  by (simp add: dijkstra_inv_def)

lemma in_keys_map_of: "v \<in> fst ` set al \<Longrightarrow> \<exists>d. map_of al v = Some d"
  by (cases "map_of al v") (auto simp: map_of_eq_None_iff)

lemma map_of_in_keys: "map_of al v = Some d \<Longrightarrow> v \<in> fst ` set al"
  by (force dest: map_of_SomeD)

lemma covered_pop:
  assumes "covered dists fringe y b"
    and "fst ` set dists' = insert (snd (snd m)) (fst ` set dists)"
    and "set (remove1 m fringe) \<subseteq> set fringe'"
  shows "covered dists' fringe' y b"
proof (cases "y \<in> fst ` set dists'")
  case True
  then show ?thesis by (simp add: covered_def)
next
  case False
  with assms(1,2) obtain en where en: "en \<in> set fringe" "snd (snd en) = y" "fst en \<le> b"
    by (auto simp: covered_def)
  with False assms(2) have "en \<noteq> m" by auto
  with en(1) have "en \<in> set (remove1 m fringe)" by simp
  with assms(3) have "en \<in> set fringe'" by blast
  with en show ?thesis by (auto simp: covered_def)
qed

lemma covered_skip:
  assumes "covered dists fringe y b" and "snd (snd m) \<in> fst ` set dists"
  shows "covered dists (remove1 m fringe) y b"
proof (rule covered_pop [OF assms(1)])
  show "fst ` set dists = insert (snd (snd m)) (fst ` set dists)" using assms(2) by blast
  show "set (remove1 m fringe) \<subseteq> set (remove1 m fringe)" by simp
qed

lemma dijkstra_inv_final:
  assumes nn: "nonneg_weights G" and inv: "dijkstra_inv G s cutoff dists seen []"
  shows "(map_of dists v = Some d) = (shortest_dist G s v d \<and> (d \<le> cutoff \<or> v = s))"
proof
  assume "map_of dists v = Some d"
  with inv show "shortest_dist G s v d \<and> (d \<le> cutoff \<or> v = s)"
    by (rule inv_fin)
next
  assume a: "shortest_dist G s v d \<and> (d \<le> cutoff \<or> v = s)"
  from inv_src [OF inv] have src: "s \<in> fst ` set dists" by simp
  have "v \<in> fst ` set dists"
  proof (rule ccontr)
    assume nv: "v \<notin> fst ` set dists"
    with src a have dc: "d \<le> cutoff" by auto
    from a have w: "walk G s v d" by (simp add: shortest_dist_def)
    from walk_leaves [OF w nn src nv] obtain x y b e where
      x: "x \<in> fst ` set dists" and y: "y \<notin> fst ` set dists" and wx: "walk G s x b"
      and e: "edge_data G x y = Some e" and le: "b + weight e \<le> d"
      by blast
    from in_keys_map_of [OF x] obtain dx where dx: "map_of dists x = Some dx" by blast
    from inv_fin [OF inv dx] have "shortest_dist G s x dx" by simp
    with wx have "dx \<le> b" by (simp add: shortest_dist_def)
    with le dc have "dx + weight e \<le> cutoff" by simp
    from inv_edges [OF inv dx e this] have "covered dists [] y (dx + weight e)" .
    with y show False by (simp add: covered_def)
  qed
  from in_keys_map_of [OF this] obtain d' where d': "map_of dists v = Some d'" by blast
  from inv_fin [OF inv d'] have "shortest_dist G s v d'" by simp
  with a have "d' = d" by (auto dest: shortest_dist_unique)
  with d' show "map_of dists v = Some d" by simp
qed

lemma Min_fringe:
  fixes fringe :: "heap_entry list"
  assumes "fringe \<noteq> []"
  shows "Min (set fringe) \<in> set fringe" and "\<forall>en \<in> set fringe. fst (Min (set fringe)) \<le> fst en"
proof -
  show "Min (set fringe) \<in> set fringe" using assms by (intro Min_in) simp_all
  show "\<forall>en \<in> set fringe. fst (Min (set fringe)) \<le> fst en"
  proof
    fix en :: heap_entry assume "en \<in> set fringe"
    then have "Min (set fringe) \<le> en" by (intro Min_le) simp_all
    then show "fst (Min (set fringe)) \<le> fst en" by (auto simp: less_eq_prod_def)
  qed
qed

lemma dijkstra_inv_pop_shortest:
  assumes nn: "nonneg_weights G" and inv: "dijkstra_inv G s cutoff dists seen fringe"
    and ne: "fringe \<noteq> []" and m: "m = Min (set fringe)"
    and new: "snd (snd m) \<notin> fst ` set dists"
  shows "shortest_dist G s (snd (snd m)) (fst m)"
proof -
  note mf = Min_fringe [OF ne, folded m]
  from inv_fr [OF inv mf(1)] have w: "walk G s (snd (snd m)) (fst m)"
    and cut: "fst m \<le> cutoff \<or> snd (snd m) = s"
    by simp_all
  have "fst m \<le> d'" if w': "walk G s (snd (snd m)) d'" for d'
  proof (cases "s \<in> fst ` set dists")
    case False
    with inv_src [OF inv] have "fringe = [(0, 0, s)]" by simp
    with m have "fst m = 0" by simp
    with walk_nonneg [OF w' nn] show ?thesis by simp
  next
    case True
    with new cut have dc: "fst m \<le> cutoff" by auto
    from walk_leaves [OF w' nn True new] obtain x y b e where
      x: "x \<in> fst ` set dists" and y: "y \<notin> fst ` set dists" and wx: "walk G s x b"
      and e: "edge_data G x y = Some e" and le: "b + weight e \<le> d'"
      by blast
    from in_keys_map_of [OF x] obtain dx where dx: "map_of dists x = Some dx" by blast
    from inv_fin [OF inv dx] have "shortest_dist G s x dx" by simp
    with wx have dxb: "dx \<le> b" by (simp add: shortest_dist_def)
    show ?thesis
    proof (cases "dx + weight e \<le> cutoff")
      case True
      from inv_edges [OF inv dx e True] have "covered dists fringe y (dx + weight e)" .
      with y obtain en where en: "en \<in> set fringe" "fst en \<le> dx + weight e"
        by (auto simp: covered_def)
      from mf(2) en(1) have "fst m \<le> fst en" by blast
      with en(2) dxb le show ?thesis by simp
    next
      case False
      with dc dxb le show ?thesis by simp
    qed
  qed
  with w show ?thesis by (simp add: shortest_dist_def)
qed

lemma dijkstra_invI:
  assumes "distinct (map fst dists)"
    and "\<And>v d. map_of dists v = Some d \<Longrightarrow> shortest_dist G s v d \<and> (d \<le> cutoff \<or> v = s)"
    and "\<And>en. en \<in> set fringe \<Longrightarrow> walk G s (snd (snd en)) (fst en) \<and> (fst en \<le> cutoff \<or> snd (snd en) = s)"
    and "\<And>v dv en. map_of dists v = Some dv \<Longrightarrow> en \<in> set fringe \<Longrightarrow> dv \<le> fst en"
    and "\<And>x dx y e. map_of dists x = Some dx \<Longrightarrow> edge_data G x y = Some e
            \<Longrightarrow> dx + weight e \<le> cutoff \<Longrightarrow> covered dists fringe y (dx + weight e)"
    and "\<And>y sy. map_of seen y = Some sy \<Longrightarrow> covered dists fringe y sy"
    and "dists = [] \<and> fringe = [(0, 0, s)] \<or> s \<in> fst ` set dists"
  shows "dijkstra_inv G s cutoff dists seen fringe"
  unfolding dijkstra_inv_def
  apply (intro conjI allI impI ballI)
  using assms by blast+

lemma dijkstra_inv_init:
  assumes "has_node G s"
  shows "dijkstra_inv G s cutoff [] [(s, 0)] [(0, 0, s)]"
proof (rule dijkstra_invI)
  show "\<And>en. en \<in> set [(0::real, 0::nat, s)] \<Longrightarrow>
      walk G s (snd (snd en)) (fst en) \<and> (fst en \<le> cutoff \<or> snd (snd en) = s)"
    using assms by (auto intro: walk_refl)
  show "\<And>y sy. map_of [(s, 0::real)] y = Some sy \<Longrightarrow> covered [] [(0, 0, s)] y sy"
    by (auto simp: covered_def split: if_splits)
qed simp_all

lemma dijkstra_inv_skip:
  assumes inv: "dijkstra_inv G s cutoff dists seen fringe"
    and old: "snd (snd m) \<in> fst ` set dists"
  shows "dijkstra_inv G s cutoff dists seen (remove1 m fringe)"
proof (rule dijkstra_invI)
  have sub: "set (remove1 m fringe) \<subseteq> set fringe" by (rule set_remove1_subset)
  show "distinct (map fst dists)" by (rule inv_distinct [OF inv])
  show "\<And>v d. map_of dists v = Some d \<Longrightarrow> shortest_dist G s v d \<and> (d \<le> cutoff \<or> v = s)"
    by (rule inv_fin [OF inv])
  show "\<And>en. en \<in> set (remove1 m fringe) \<Longrightarrow>
      walk G s (snd (snd en)) (fst en) \<and> (fst en \<le> cutoff \<or> snd (snd en) = s)"
    using sub by (intro inv_fr [OF inv]) blast
  show "\<And>v dv en. map_of dists v = Some dv \<Longrightarrow> en \<in> set (remove1 m fringe) \<Longrightarrow> dv \<le> fst en"
    using sub by (intro inv_mono [OF inv]) blast+
  show "\<And>x dx y e. map_of dists x = Some dx \<Longrightarrow> edge_data G x y = Some e
            \<Longrightarrow> dx + weight e \<le> cutoff \<Longrightarrow> covered dists (remove1 m fringe) y (dx + weight e)"
    by (intro covered_skip [OF _ old] inv_edges [OF inv])
  show "\<And>y sy. map_of seen y = Some sy \<Longrightarrow> covered dists (remove1 m fringe) y sy"
    by (intro covered_skip [OF _ old] inv_seen [OF inv])
  show "dists = [] \<and> remove1 m fringe = [(0, 0, s)] \<or> s \<in> fst ` set dists"
    using inv_src [OF inv] old by auto
qed

lemma dijkstra_inv_step:
  assumes wf: "nx_wellformed G" and nn: "nonneg_weights G"
    and inv: "dijkstra_inv G s cutoff dists seen fringe"
    and ne: "fringe \<noteq> []" and m: "m = Min (set fringe)"
    and new: "snd (snd m) \<notin> fst ` set dists"
    and nb: "map_of G (snd (snd m)) = Some nbrs"
  shows "\<exists>seen' fringe' c'.
      relax cutoff (AList.update (snd (snd m)) (fst m) dists) (fst m) nbrs (seen, remove1 m fringe, c)
        = Inr (seen', fringe', c')
      \<and> dijkstra_inv G s cutoff (AList.update (snd (snd m)) (fst m) dists) seen' fringe'"
proof -
  define v where "v = snd (snd m)"
  define d where "d = fst m"
  define D' where "D' = AList.update v d dists"
  define rest where "rest = remove1 m fringe"
  note mf = Min_fringe [OF ne, folded m]
  have sd: "shortest_dist G s v d"
    unfolding v_def d_def by (rule dijkstra_inv_pop_shortest [OF nn inv ne m new])
  have wv: "walk G s v d" using sd by (simp add: shortest_dist_def)
  have keys': "fst ` set D' = insert (snd (snd m)) (fst ` set dists)"
    by (simp add: D'_def dom_update v_def)
  have mapD': "map_of D' x = (if x = v then Some d else map_of dists x)" for x
    by (simp add: D'_def update_conv')
  have vG: "(v, nbrs) \<in> set G" using nb by (auto simp: v_def dest: map_of_SomeD)
  have nbnn: "0 \<le> weight e" if "(u, e) \<in> set nbrs" for u e
    using nn vG that by (fastforce simp: nonneg_weights_def)
  have fin_le: "dx \<le> d" if "map_of dists x = Some dx" for x dx
    using inv_mono [OF inv that mf(1)] by (simp add: d_def)
  have p1: "\<forall>(u, e) \<in> set nbrs. \<forall>ud. map_of D' u = Some ud \<longrightarrow> ud \<le> d + weight e"
  proof (intro ballI, clarify)
    fix u e ud assume ue: "(u, e) \<in> set nbrs" and ud: "map_of D' u = Some ud"
    have "ud \<le> d" using ud fin_le by (auto simp: mapD' split: if_splits)
    with nbnn [OF ue] show "ud \<le> d + weight e" by simp
  qed
  have pop: "covered D' fr y b" if "covered dists fringe y b" "set rest \<subseteq> set fr" for fr y b
    using that(1) keys' that(2) unfolding rest_def by (rule covered_pop)
  have p2: "\<forall>y sy. map_of seen y = Some sy \<longrightarrow> covered D' rest y sy"
    by (intro allI impI pop inv_seen [OF inv]) simp_all
  from relax_spec [OF p1 p2, of cutoff c] obtain seen' fringe' c' where
    r: "relax cutoff D' d nbrs (seen, rest, c) = Inr (seen', fringe', c')"
    and sub: "set rest \<subseteq> set fringe'"
    and newe: "\<forall>en \<in> set fringe' - set rest.
           \<exists>e. (snd (snd en), e) \<in> set nbrs \<and> fst en = d + weight e \<and> fst en \<le> cutoff"
    and sn: "\<forall>y sy. map_of seen' y = Some sy \<longrightarrow> covered D' fringe' y sy"
    and cv: "\<forall>(u, e) \<in> set nbrs. d + weight e \<le> cutoff \<longrightarrow> covered D' fringe' u (d + weight e)"
    by blast
  have rest_sub: "set rest \<subseteq> set fringe" unfolding rest_def by (rule set_remove1_subset)
  have entry: "walk G s (snd (snd en)) (fst en) \<and> (fst en \<le> cutoff \<or> snd (snd en) = s) \<and> d \<le> fst en"
    if en: "en \<in> set fringe'" for en
  proof (cases "en \<in> set rest")
    case True
    with rest_sub have "en \<in> set fringe" by blast
    with inv_fr [OF inv this] mf(2) show ?thesis by (simp add: d_def)
  next
    case False
    with en newe obtain e where e: "(snd (snd en), e) \<in> set nbrs" "fst en = d + weight e" "fst en \<le> cutoff"
      by blast
    from e(1) have "edge_data G v (snd (snd en)) = Some e"
      using nbrs_edge_data [OF wf nb] by (simp add: v_def)
    from walk_step [OF wv this] have "walk G s (snd (snd en)) (fst en)" by (simp add: e(2))
    with e nbnn [OF e(1)] show ?thesis by simp
  qed
  have "dijkstra_inv G s cutoff D' seen' fringe'"
  proof (rule dijkstra_invI)
    show "distinct (map fst D')"
      unfolding D'_def by (rule distinct_update [OF inv_distinct [OF inv]])
    show "shortest_dist G s x dx \<and> (dx \<le> cutoff \<or> x = s)" if "map_of D' x = Some dx" for x dx
    proof (cases "x = v")
      case True
      with that have "dx = d" by (simp add: mapD')
      with True sd inv_fr [OF inv mf(1)] show ?thesis by (simp add: v_def d_def)
    next
      case False
      with that have "map_of dists x = Some dx" by (simp add: mapD')
      then show ?thesis by (rule inv_fin [OF inv])
    qed
    show "walk G s (snd (snd en)) (fst en) \<and> (fst en \<le> cutoff \<or> snd (snd en) = s)"
      if "en \<in> set fringe'" for en
      using entry [OF that] by simp
    show "dx \<le> fst en" if "map_of D' x = Some dx" "en \<in> set fringe'" for x dx en
    proof -
      have "dx \<le> d" using that(1) fin_le by (auto simp: mapD' split: if_splits)
      with entry [OF that(2)] show ?thesis by simp
    qed
    show "covered D' fringe' y (dx + weight e)"
      if "map_of D' x = Some dx" "edge_data G x y = Some e" "dx + weight e \<le> cutoff" for x dx y e
    proof (cases "x = v")
      case True
      with that(1) have dx: "dx = d" by (simp add: mapD')
      from that(2) True have "(y, e) \<in> set nbrs"
        using nbrs_edge_data [OF wf nb] by (simp add: v_def)
      with cv that(3) dx show ?thesis by auto
    next
      case False
      with that(1) have "map_of dists x = Some dx" by (simp add: mapD')
      from inv_edges [OF inv this that(2,3)] sub show ?thesis by (rule pop)
    qed
    show "covered D' fringe' y sy" if "map_of seen' y = Some sy" for y sy
      using sn that by blast
    show "D' = [] \<and> fringe' = [(0, 0, s)] \<or> s \<in> fst ` set D'"
    proof (cases "s \<in> fst ` set dists")
      case True
      then show ?thesis by (simp add: keys')
    next
      case False
      with inv_src [OF inv] have "fringe = [(0, 0, s)]" by simp
      with m have "snd (snd m) = s" by simp
      then show ?thesis by (simp add: keys')
    qed
  qed
  with r show ?thesis unfolding D'_def rest_def v_def d_def by blast
qed

lemma dijkstra_loop_correct:
  "nx_wellformed G \<Longrightarrow> nonneg_weights G \<Longrightarrow> dijkstra_inv G s cutoff dists seen fringe \<Longrightarrow>
     \<exists>R. dijkstra_loop G cutoff dists seen fringe c = Inr R \<and> distinct (map fst R)
       \<and> (\<forall>v d. (map_of R v = Some d) = (shortest_dist G s v d \<and> (d \<le> cutoff \<or> v = s)))"
proof (induction G cutoff dists seen fringe c rule: dijkstra_loop.induct)
  case (1 G cutoff dists seen fringe c)
  note wf = "1.prems"(1) and nn = "1.prems"(2) and inv = "1.prems"(3)
  show ?case
  proof (cases "fringe = []")
    case True
    have "dijkstra_loop G cutoff dists seen fringe c = Inr dists"
      by (subst dijkstra_loop.simps) (simp add: True)
    moreover have "\<forall>v d. (map_of dists v = Some d) = (shortest_dist G s v d \<and> (d \<le> cutoff \<or> v = s))"
      using dijkstra_inv_final [OF nn inv [unfolded True]] by blast
    ultimately show ?thesis using inv_distinct [OF inv] by blast
  next
    case ne: False
    define m where "m = Min (set fringe)"
    note mf = Min_fringe [OF ne, folded m_def]
    show ?thesis
    proof (cases "snd (snd m) \<in> fst ` set dists")
      case True
      have eq: "dijkstra_loop G cutoff dists seen fringe c
          = dijkstra_loop G cutoff dists seen (remove1 m fringe) c"
        by (subst dijkstra_loop.simps) (simp add: ne True m_def [symmetric] Let_def)
      from "1.IH"(1) [OF ne m_def refl refl refl True wf nn dijkstra_inv_skip [OF inv True]]
      show ?thesis unfolding eq .
    next
      case False
      from inv_fr [OF inv mf(1)] have "walk G s (snd (snd m)) (fst m)" by simp
      from walk_has_node [OF this wf] have "snd (snd m) \<in> fst ` set G"
        by (simp add: has_node_def)
      from in_keys_map_of [OF this] obtain nbrs where nb: "map_of G (snd (snd m)) = Some nbrs"
        by blast
      from dijkstra_inv_step [OF wf nn inv ne m_def False nb, of c] obtain seen' fringe' c' where
        r: "relax cutoff (AList.update (snd (snd m)) (fst m) dists) (fst m) nbrs
              (seen, remove1 m fringe, c) = Inr (seen', fringe', c')"
        and inv': "dijkstra_inv G s cutoff (AList.update (snd (snd m)) (fst m) dists) seen' fringe'"
        by blast
      have eq: "dijkstra_loop G cutoff dists seen fringe c
          = dijkstra_loop G cutoff (AList.update (snd (snd m)) (fst m) dists) seen' fringe' c'"
        by (subst dijkstra_loop.simps) (simp add: ne False m_def [symmetric] Let_def nb r)
      from "1.IH"(2) [OF ne m_def refl refl refl False nb r refl refl wf nn inv']
      show ?thesis unfolding eq .
    qed
  qed
qed

text \<open>The library search from one source: it never raises on a well-formed graph with
  non-negative weights, and its result is the table of bounded shortest distances.\<close>

lemma single_source_dijkstra_correct:
  assumes wf: "nx_wellformed G" and nn: "nonneg_weights G" and src: "has_node G s"
  shows "\<exists>R. single_source_dijkstra_path_length G s cutoff = Inr R \<and> distinct (map fst R)
       \<and> (\<forall>v d. (map_of R v = Some d) = (shortest_dist G s v d \<and> (d \<le> cutoff \<or> v = s)))"
  unfolding single_source_dijkstra_path_length_def
  using dijkstra_loop_correct [OF wf nn dijkstra_inv_init [OF src], of cutoff 1] src by simp


subsection \<open>The builder, the seeds and the service area\<close>

lemma map_of_keep_min:
  "map_of (keep_min (k, d) acc) v =
     (if v = k then (case map_of acc k of None \<Rightarrow> Some d | Some a \<Rightarrow> Some (min a d))
      else map_of acc v)"
  by (auto simp: keep_min_def update_conv' min_def split: option.splits)

lemma map_of_fold_keep_min:
  "distinct (map fst ds) \<Longrightarrow>
   map_of (fold keep_min ds acc) v =
     (case map_of ds v of
        None \<Rightarrow> map_of acc v
      | Some d \<Rightarrow> (case map_of acc v of None \<Rightarrow> Some d | Some a \<Rightarrow> Some (min a d)))"
proof (induction ds arbitrary: acc)
  case Nil
  then show ?case by simp
next
  case (Cons kd ds)
  obtain k d where kd: "kd = (k, d)" by (cases kd)
  from Cons.prems have dis: "distinct (map fst ds)" and nk: "k \<notin> fst ` set ds"
    by (auto simp: kd)
  from nk have none: "map_of ds k = None" by (simp add: map_of_eq_None_iff)
  show ?case
    using Cons.IH [OF dis, of "keep_min (k, d) acc"] none
    by (auto simp: kd map_of_keep_min split: option.splits)
qed

lemma distinct_keep_min: "distinct (map fst acc) \<Longrightarrow> distinct (map fst (keep_min kd acc))"
  by (simp add: keep_min_def distinct_update)

lemma distinct_fold_keep_min:
  "distinct (map fst acc) \<Longrightarrow> distinct (map fst (fold keep_min ds acc))"
  by (induction ds arbitrary: acc) (simp_all add: distinct_keep_min)

lemma walk_source_node: "walk G s v d \<Longrightarrow> has_node G s"
  by (induction rule: walk.induct) auto

lemma bounded_dist_has_node: "bounded_dist G s c v d \<Longrightarrow> has_node G s"
  by (auto simp: bounded_dist_def shortest_dist_def dest: walk_source_node)

lemma merged_cases:
  fixes acc :: "(node \<times> real) list"
  assumes "map_of acc' v =
     (case map_of T v of
        None \<Rightarrow> map_of acc v
      | Some d \<Rightarrow> (case map_of acc v of None \<Rightarrow> Some d | Some a \<Rightarrow> Some (min a d)))"
  shows "map_of acc' v = Some d \<Longrightarrow> map_of acc v = Some d \<or> map_of T v = Some d"
    and "map_of acc v = Some a \<Longrightarrow> \<exists>a'. map_of acc' v = Some a' \<and> a' \<le> a"
    and "map_of T v = Some t \<Longrightarrow> \<exists>a'. map_of acc' v = Some a' \<and> a' \<le> t"
  using assms by (auto simp: min_def split: option.splits if_splits)

lemma source_loop_spec:
  assumes wf: "nx_wellformed G" and nn: "nonneg_weights G"
  shows "distinct (map fst acc) \<Longrightarrow>
    \<exists>R. source_loop G c seeds acc = Inr R \<and> distinct (map fst R)
      \<and> (\<forall>v d. map_of R v = Some d \<longrightarrow>
            (map_of acc v = Some d \<or> (\<exists>s \<in> set seeds. bounded_dist G s c v d))
            \<and> (\<forall>a. map_of acc v = Some a \<longrightarrow> d \<le> a)
            \<and> (\<forall>s \<in> set seeds. \<forall>d'. bounded_dist G s c v d' \<longrightarrow> d \<le> d'))
      \<and> (\<forall>v d'. map_of acc v = Some d' \<or> (\<exists>s \<in> set seeds. bounded_dist G s c v d')
            \<longrightarrow> (\<exists>d. map_of R v = Some d))"
proof (induction seeds arbitrary: acc)
  case Nil
  then show ?case by (simp del: map_of_eq_Some_iff)
next
  case (Cons s ss)
  show ?case
  proof (cases "has_node G s")
    case False
    then have nobd: "\<not> bounded_dist G s c v d" for v d
      by (auto dest: bounded_dist_has_node)
    from Cons.IH [OF Cons.prems] obtain R where
      R: "source_loop G c ss acc = Inr R" "distinct (map fst R)"
      and A: "\<forall>v d. map_of R v = Some d \<longrightarrow>
            (map_of acc v = Some d \<or> (\<exists>s \<in> set ss. bounded_dist G s c v d))
            \<and> (\<forall>a. map_of acc v = Some a \<longrightarrow> d \<le> a)
            \<and> (\<forall>s \<in> set ss. \<forall>d'. bounded_dist G s c v d' \<longrightarrow> d \<le> d')"
      and B: "\<forall>v d'. map_of acc v = Some d' \<or> (\<exists>s \<in> set ss. bounded_dist G s c v d')
            \<longrightarrow> (\<exists>d. map_of R v = Some d)"
      by blast
    have "source_loop G c (s # ss) acc = Inr R" using False R(1) by simp
    moreover have "\<forall>v d. map_of R v = Some d \<longrightarrow>
            (map_of acc v = Some d \<or> (\<exists>s \<in> set (s # ss). bounded_dist G s c v d))
            \<and> (\<forall>a. map_of acc v = Some a \<longrightarrow> d \<le> a)
            \<and> (\<forall>s \<in> set (s # ss). \<forall>d'. bounded_dist G s c v d' \<longrightarrow> d \<le> d')"
      using A nobd by simp
    moreover have "\<forall>v d'. map_of acc v = Some d' \<or> (\<exists>s \<in> set (s # ss). bounded_dist G s c v d')
            \<longrightarrow> (\<exists>d. map_of R v = Some d)"
      using B nobd by simp
    ultimately show ?thesis using R(2) by blast
  next
    case True
    from single_source_dijkstra_correct [OF wf nn True, of c] obtain T where
      T: "single_source_dijkstra_path_length G s c = Inr T" "distinct (map fst T)"
      and Tc: "\<And>v d. (map_of T v = Some d) = bounded_dist G s c v d"
      unfolding bounded_dist_def by blast
    define acc' where "acc' = fold keep_min T acc"
    have dacc': "distinct (map fst acc')"
      unfolding acc'_def by (rule distinct_fold_keep_min [OF Cons.prems])
    note mc = merged_cases [where acc' = acc' and T = T and acc = acc,
        OF map_of_fold_keep_min [OF T(2), of acc, folded acc'_def]]
    from Cons.IH [OF dacc'] obtain R where
      R: "source_loop G c ss acc' = Inr R" "distinct (map fst R)"
      and A: "\<And>v d. map_of R v = Some d \<Longrightarrow>
            (map_of acc' v = Some d \<or> (\<exists>s \<in> set ss. bounded_dist G s c v d))
            \<and> (\<forall>a. map_of acc' v = Some a \<longrightarrow> d \<le> a)
            \<and> (\<forall>s \<in> set ss. \<forall>d'. bounded_dist G s c v d' \<longrightarrow> d \<le> d')"
      and B: "\<And>v d'. map_of acc' v = Some d' \<or> (\<exists>s \<in> set ss. bounded_dist G s c v d')
            \<Longrightarrow> (\<exists>d. map_of R v = Some d)"
      by blast
    have eq: "source_loop G c (s # ss) acc = Inr R"
      using True T(1) R(1) by (simp add: acc'_def)
    have A': "(map_of acc v = Some d \<or> (\<exists>s \<in> set (s # ss). bounded_dist G s c v d))
            \<and> (\<forall>a. map_of acc v = Some a \<longrightarrow> d \<le> a)
            \<and> (\<forall>s \<in> set (s # ss). \<forall>d'. bounded_dist G s c v d' \<longrightarrow> d \<le> d')"
      if Rv: "map_of R v = Some d" for v d
    proof (intro conjI allI impI ballI)
      from A [OF Rv] have "map_of acc' v = Some d \<or> (\<exists>s \<in> set ss. bounded_dist G s c v d)"
        by simp
      then show "map_of acc v = Some d \<or> (\<exists>s \<in> set (s # ss). bounded_dist G s c v d)"
        using mc(1) [of v d] Tc [of v d] by auto
    next
      fix a assume "map_of acc v = Some a"
      from mc(2) [OF this] obtain a' where "map_of acc' v = Some a'" "a' \<le> a" by blast
      with A [OF Rv] show "d \<le> a" by force
    next
      fix s' d' assume s': "s' \<in> set (s # ss)" and bd: "bounded_dist G s' c v d'"
      show "d \<le> d'"
      proof (cases "s' = s")
        case True
        with bd have "map_of T v = Some d'" by (simp add: Tc)
        from mc(3) [OF this] obtain a' where "map_of acc' v = Some a'" "a' \<le> d'" by blast
        with A [OF Rv] show ?thesis by force
      next
        case False
        with s' have "s' \<in> set ss" by simp
        with A [OF Rv] bd show ?thesis by blast
      qed
    qed
    have B': "\<exists>d. map_of R v = Some d"
      if c: "map_of acc v = Some d' \<or> (\<exists>s \<in> set (s # ss). bounded_dist G s c v d')" for v d'
    proof -
      from c consider "map_of acc v = Some d'" | "bounded_dist G s c v d'"
        | "\<exists>s \<in> set ss. bounded_dist G s c v d'"
        by auto
      then show ?thesis
      proof cases
        case 1
        from mc(2) [OF this] obtain a' where "map_of acc' v = Some a'" by blast
        then show ?thesis using B [of v a'] by blast
      next
        case 2
        then have "map_of T v = Some d'" by (simp add: Tc)
        from mc(3) [OF this] obtain a' where "map_of acc' v = Some a'" by blast
        then show ?thesis using B [of v a'] by blast
      next
        case 3
        then show ?thesis using B [of v d'] by blast
      qed
    qed
    from eq R(2) A' B' show ?thesis by blast
  qed
qed

lemma set_update_subset: "set (AList.update k v al) \<subseteq> insert (k, v) (set al)"
  by (induction al) auto

lemma has_node_add_node: "has_node (add_node u G) x = (x = u \<or> has_node G x)"
  by (auto simp: add_node_def has_node_def)

lemma set_add_node: "set (add_node u G) \<subseteq> insert (u, []) (set G)"
  by (auto simp: add_node_def)

lemma has_node_set_adj: "has_node (set_adj u v a G) x = has_node G x"
proof (cases "map_of G u")
  case None
  then show ?thesis by (simp add: set_adj_def)
next
  case (Some nbrs)
  from map_of_in_keys [OF this] have "insert u (fst ` set G) = fst ` set G" by blast
  with Some show ?thesis by (simp add: set_adj_def has_node_def dom_update)
qed

lemma set_set_adj:
  assumes "(x, ns) \<in> set (set_adj u v a G)"
  shows "(x, ns) \<in> set G \<or> (\<exists>nbrs. (u, nbrs) \<in> set G \<and> ns = AList.update v a nbrs)"
proof (cases "map_of G u")
  case None
  with assms show ?thesis by (simp add: set_adj_def)
next
  case (Some nbrs)
  with assms have "(x, ns) \<in> insert (u, AList.update v a nbrs) (set G)"
    using set_update_subset [of u "AList.update v a nbrs" G] by (auto simp: set_adj_def)
  with Some show ?thesis by (auto dest: map_of_SomeD)
qed

lemma nx_wellformed_add_node: "nx_wellformed G \<Longrightarrow> nx_wellformed (add_node u G)"
  unfolding nx_wellformed_def
  using set_add_node [of u G] by (fastforce simp: has_node_add_node)

lemma nx_wellformed_set_adj:
  assumes wf: "nx_wellformed G" and v: "has_node G v"
  shows "nx_wellformed (set_adj u v a G)"
  unfolding nx_wellformed_def
proof (intro ballI, clarify, intro conjI ballI)
  fix x ns assume "(x, ns) \<in> set (set_adj u v a G)"
  from set_set_adj [OF this] consider "(x, ns) \<in> set G"
    | nbrs where "(u, nbrs) \<in> set G" "ns = AList.update v a nbrs"
    by blast
  note cases = this
  show "distinct (map fst ns)"
    using cases wf by cases (auto simp: nx_wellformed_def distinct_update)
  fix ye assume ye: "ye \<in> set ns"
  obtain y e where [simp]: "ye = (y, e)" by (cases ye)
  have "has_node G y"
    using cases
  proof cases
    case 1
    with wf ye show ?thesis by (fastforce simp: nx_wellformed_def)
  next
    case (2 nbrs)
    with ye have "(y, e) \<in> insert (v, a) (set nbrs)"
      using set_update_subset [of v a nbrs] by auto
    with 2 wf v show ?thesis by (fastforce simp: nx_wellformed_def)
  qed
  then show "case ye of (v', e) \<Rightarrow> has_node (set_adj u v a G) v'"
    by (simp add: has_node_set_adj)
qed

lemma nonneg_weights_add_node: "nonneg_weights G \<Longrightarrow> nonneg_weights (add_node u G)"
  unfolding nonneg_weights_def
  using set_add_node [of u G] by fastforce

lemma nonneg_weights_set_adj:
  assumes nn: "nonneg_weights G" and a: "0 \<le> weight a"
  shows "nonneg_weights (set_adj u v a G)"
  unfolding nonneg_weights_def
proof (intro ballI, clarify)
  fix x ns y e assume "(x, ns) \<in> set (set_adj u v a G)" and ye: "(y, e) \<in> set ns"
  from set_set_adj [OF this(1)] consider "(x, ns) \<in> set G"
    | nbrs where "(u, nbrs) \<in> set G" "ns = AList.update v a nbrs"
    by blast
  then show "0 \<le> weight e"
  proof cases
    case 1
    with nn ye show ?thesis by (fastforce simp: nonneg_weights_def)
  next
    case (2 nbrs)
    with ye have "(y, e) \<in> insert (v, a) (set nbrs)"
      using set_update_subset [of v a nbrs] by auto
    with 2 nn a show ?thesis by (fastforce simp: nonneg_weights_def)
  qed
qed

lemma has_node_add_edge: "has_node (add_edge u v a G) x = (x = u \<or> x = v \<or> has_node G x)"
  by (auto simp: add_edge_def has_node_set_adj has_node_add_node)

lemma keys_add_edge: "fst ` set (add_edge u v a G) = insert u (insert v (fst ` set G))"
  by (rule set_eqI) (simp add: has_node_add_edge [unfolded has_node_def])

lemma nx_wellformed_add_edge: "nx_wellformed G \<Longrightarrow> nx_wellformed (add_edge u v a G)"
  unfolding add_edge_def
  by (intro nx_wellformed_set_adj nx_wellformed_add_node)
     (simp_all add: has_node_set_adj has_node_add_node)

lemma nonneg_weights_add_edge:
  "nonneg_weights G \<Longrightarrow> 0 \<le> weight a \<Longrightarrow> nonneg_weights (add_edge u v a G)"
  unfolding add_edge_def
  by (intro nonneg_weights_set_adj nonneg_weights_add_node)

lemma keys_store_coord: "fst ` set (store_coord n c nc) = insert n (fst ` set nc)"
  by (auto simp: store_coord_def)

lemma build_step_cases:
  assumes "build_step row st = Inr st'"
  shows "st' = st \<or> (\<exists>g coords. st' =
          (add_edge (union_ini row) (union_fin row) \<lparr>weight = longitud row, geometry = g\<rparr> (fst st),
           store_coord (union_fin row) (last coords)
             (store_coord (union_ini row) (hd coords) (snd st))))"
  using assms by (auto simp: build_step_def Let_def split: option.splits sum.splits if_splits)

lemma build_step_inv:
  assumes "build_inv st" and "build_step row st = Inr st'"
  shows "build_inv st'"
proof -
  from build_step_cases [OF assms(2)] show ?thesis
  proof (elim disjE exE)
    assume "st' = st"
    with assms(1) show ?thesis by simp
  next
    fix g coords
    assume st': "st' =
          (add_edge (union_ini row) (union_fin row) \<lparr>weight = longitud row, geometry = g\<rparr> (fst st),
           store_coord (union_fin row) (last coords)
             (store_coord (union_ini row) (hd coords) (snd st)))"
    have "fst ` set (snd st') = fst ` set (fst st')"
      using assms(1) unfolding st' build_inv_def
      by (simp add: keys_store_coord keys_add_edge insert_commute)
    with assms(1) show ?thesis
      unfolding build_inv_def st' by (simp add: nx_wellformed_add_edge)
  qed
qed

lemma build_step_nonneg:
  assumes "nonneg_weights (fst st)" and "0 \<le> longitud row" and "build_step row st = Inr st'"
  shows "nonneg_weights (fst st')"
  using build_step_cases [OF assms(3)] assms(1,2)
  by (auto simp: nonneg_weights_add_edge)

lemma build_loop_inv:
  "build_inv st \<Longrightarrow> build_loop segs st = Inr st' \<Longrightarrow> build_inv st'"
proof (induction segs arbitrary: st)
  case Nil
  then show ?case by simp
next
  case (Cons row rest)
  from Cons.prems(2) obtain st1 where s1: "build_step row st = Inr st1"
    and r: "build_loop rest st1 = Inr st'"
    by (auto split: sum.splits)
  from Cons.IH [OF build_step_inv [OF Cons.prems(1) s1] r] show ?case .
qed

lemma build_loop_nonneg:
  "nonneg_weights (fst st) \<Longrightarrow> \<forall>row \<in> set segs. 0 \<le> longitud row
     \<Longrightarrow> build_loop segs st = Inr st' \<Longrightarrow> nonneg_weights (fst st')"
proof (induction segs arbitrary: st)
  case Nil
  then show ?case by simp
next
  case (Cons row rest)
  from Cons.prems(3) obtain st1 where s1: "build_step row st = Inr st1"
    and r: "build_loop rest st1 = Inr st'"
    by (auto split: sum.splits)
  from build_step_nonneg [OF Cons.prems(1) _ s1] Cons.prems(2) have "nonneg_weights (fst st1)"
    by simp
  from Cons.IH [OF this _ r] Cons.prems(2) show ?case by simp
qed

lemma load_and_build_network_ready:
  assumes "load_and_build_network rnc = Inr na"
  shows "analyzer_ready na"
proof (cases rnc)
  case None
  with assms show ?thesis by (auto simp: load_and_build_network_def analyzer_ready_def)
next
  case (Some segs)
  with assms obtain G nc where b: "build_loop segs ([], []) = Inr (G, nc)" and ne: "nc \<noteq> []"
    and na: "na = \<lparr>graph = Some G, node_coords = nc, coord_tree = Some (map snd nc),
                  node_ids = map fst nc\<rparr>"
    by (auto simp: load_and_build_network_def split: sum.splits if_splits)
  have "build_inv ([], [])"
    by (simp add: build_inv_def nx_wellformed_def)
  from build_loop_inv [OF this b] have "build_inv (G, nc)" .
  with ne show ?thesis by (simp add: na build_inv_def analyzer_ready_def)
qed

lemma load_and_build_network_nonneg:
  assumes "load_and_build_network (Some segs) = Inr na" and "\<forall>row \<in> set segs. 0 \<le> longitud row"
    and "graph na = Some G"
  shows "nonneg_weights G"
proof -
  from assms(1,3) obtain nc where b: "build_loop segs ([], []) = Inr (G, nc)"
    by (auto simp: load_and_build_network_def split: sum.splits if_splits)
  have "nonneg_weights (fst (([], []) :: nxgraph \<times> (node \<times> point) list))"
    by (simp add: nonneg_weights_def)
  from build_loop_nonneg [OF this assms(2) b] show ?thesis by simp
qed

lemma kd_query_nearest:
  "tree \<noteq> [] \<Longrightarrow>
     \<exists>d i. kd_query tree p = Some (d, i) \<and> i < length tree \<and> d = euclid (tree ! i) p
       \<and> (\<forall>j < length tree. d \<le> euclid (tree ! j) p)"
proof (induction tree)
  case Nil
  then show ?case by simp
next
  case (Cons c cs)
  show ?case
  proof (cases "cs = []")
    case True
    then show ?thesis by simp
  next
    case False
    from Cons.IH [OF this] obtain d i where q: "kd_query cs p = Some (d, i)" "i < length cs"
      "d = euclid (cs ! i) p" and least: "\<forall>j < length cs. d \<le> euclid (cs ! j) p"
      by blast
    show ?thesis
    proof (cases "euclid c p \<le> d")
      case True
      have "\<forall>j < length (c # cs). euclid c p \<le> euclid ((c # cs) ! j) p"
      proof (intro allI impI)
        fix j assume "j < length (c # cs)"
        then show "euclid c p \<le> euclid ((c # cs) ! j) p"
          using True least by (cases j) (auto intro: order_trans)
      qed
      with True q(1) show ?thesis by simp
    next
      case False
      have "\<forall>j < length (c # cs). d \<le> euclid ((c # cs) ! j) p"
      proof (intro allI impI)
        fix j assume "j < length (c # cs)"
        then show "d \<le> euclid ((c # cs) ! j) p"
          using False least by (cases j) auto
      qed
      with False q show ?thesis by simp
    qed
  qed
qed

lemma analyzer_readyD:
  assumes "analyzer_ready na" and "graph na = Some G"
  shows "nx_wellformed G \<and> node_coords na \<noteq> []
          \<and> coord_tree na = Some (map snd (node_coords na))
          \<and> node_ids na = map fst (node_coords na)
          \<and> set (node_ids na) = fst ` set G"
  using assms(1) unfolding analyzer_ready_def assms(2) option.case .

lemma find_nearest_node_ready:
  assumes "analyzer_ready na" and "graph na = Some G"
  shows "\<exists>i d. find_nearest_node na p = Inr (Some (node_ids na ! i, d))
     \<and> i < length (node_coords na) \<and> d = euclid (snd (node_coords na ! i)) p
     \<and> (\<forall>j < length (node_coords na). d \<le> euclid (snd (node_coords na ! j)) p)"
proof -
  from assms have ne: "map snd (node_coords na) \<noteq> []"
    and tree: "coord_tree na = Some (map snd (node_coords na))"
    and ids: "node_ids na = map fst (node_coords na)"
    by (simp_all add: analyzer_ready_def)
  from kd_query_nearest [OF ne, of p] obtain d i where
    q: "kd_query (map snd (node_coords na)) p = Some (d, i)" "i < length (node_coords na)"
      "d = euclid (snd (node_coords na ! i)) p"
      "\<forall>j < length (node_coords na). d \<le> euclid (snd (node_coords na ! j)) p"
    by auto
  then have "find_nearest_node na p = Inr (Some (node_ids na ! i, d))"
    by (simp add: find_nearest_node_def tree ids)
  with q show ?thesis by blast
qed

lemma find_nearest_node_is_node:
  assumes "analyzer_ready na" and "graph na = Some G"
    and "find_nearest_node na p = Inr (Some (n, d))"
  shows "has_node G n"
proof -
  from find_nearest_node_ready [OF assms(1,2), of p] assms(3) obtain i where
    "n = node_ids na ! i" "i < length (node_coords na)"
    by auto
  moreover note rdy = analyzer_readyD [OF assms(1,2)]
  then have "length (node_ids na) = length (node_coords na)" by simp
  ultimately have "n \<in> set (node_ids na)" by simp
  with rdy show ?thesis unfolding has_node_def by blast
qed

lemma set_set_add: "set (set_add x xs) = insert x (set xs)"
  by (auto simp: set_add_def)

lemma sample_loop_spec:
  assumes "\<And>p. \<exists>n d. find_nearest_node na p = Inr (Some (n, d))"
  shows "\<exists>R. sample_loop ip na num is acc = Inr R
     \<and> set R = set acc \<union>
         {n. \<exists>i \<in> set is. \<exists>d. find_nearest_node na (ip (real i / real num)) = Inr (Some (n, d))
               \<and> d < 500}"
proof (induction "is" arbitrary: acc)
  case Nil
  then show ?case by simp
next
  case (Cons i rest)
  from assms obtain n d where f: "find_nearest_node na (ip (real i / real num)) = Inr (Some (n, d))"
    by blast
  define acc' where "acc' = (if d < 500 then set_add n acc else acc)"
  from Cons.IH [of acc'] obtain R where R: "sample_loop ip na num rest acc' = Inr R"
    and S: "set R = set acc' \<union>
         {n. \<exists>i \<in> set rest. \<exists>d. find_nearest_node na (ip (real i / real num)) = Inr (Some (n, d))
               \<and> d < 500}"
    by blast
  have "sample_loop ip na num (i # rest) acc = Inr R"
    using f R by (simp add: acc'_def)
  moreover have "set R = set acc \<union>
         {n. \<exists>j \<in> set (i # rest). \<exists>d. find_nearest_node na (ip (real j / real num)) = Inr (Some (n, d))
               \<and> d < 500}"
    unfolding S acc'_def using f by (auto simp: set_set_add)
  ultimately show ?case by blast
qed

text \<open>The seed nodes: the nearest nodes, closer than 500 m, of the sampled points.\<close>

lemma find_nearest_nodes_on_route_ready:
  assumes "analyzer_ready na" and "graph na = Some G"
  shows "\<exists>seeds. find_nearest_nodes_on_route sh na route 100 = Inr seeds
     \<and> set seeds = {n. \<exists>p \<in> set (route_samples sh route). \<exists>d.
           find_nearest_node na p = Inr (Some (n, d)) \<and> d < 500}"
proof -
  define line where "line = to_utm sh route"
  define num where "num = nat (max (py_int (geom_length sh line / 100)) 10)"
  from assms have tree: "coord_tree na = Some (map snd (node_coords na))"
    by (simp add: analyzer_ready_def)
  have fnn: "\<exists>n d. find_nearest_node na p = Inr (Some (n, d))" for p
    using find_nearest_node_ready [OF assms, of p] by blast
  from sample_loop_spec [of na "interpolate sh line" num "[0 ..< num + 1]" "[]", OF fnn]
  obtain R where R: "sample_loop (interpolate sh line) na num [0 ..< num + 1] [] = Inr R"
    and S: "set R = {n. \<exists>i \<in> set [0 ..< num + 1]. \<exists>d.
        find_nearest_node na (interpolate sh line (real i / real num)) = Inr (Some (n, d)) \<and> d < 500}"
    by auto
  have "find_nearest_nodes_on_route sh na route 100 = Inr R"
    using R by (simp add: find_nearest_nodes_on_route_def tree py_truediv_def Let_def
        line_def [symmetric] num_def [symmetric])
  moreover have "set R = {n. \<exists>p \<in> set (route_samples sh route). \<exists>d.
           find_nearest_node na p = Inr (Some (n, d)) \<and> d < 500}"
    unfolding S route_samples_def Let_def line_def [symmetric] num_def [symmetric]
    by auto
  ultimately show ?thesis by blast
qed

lemma calculate_service_area_spec:
  assumes rdy: "analyzer_ready na" and g: "graph na = Some G" and nn: "nonneg_weights G"
    and seeds: "find_nearest_nodes_on_route sh na route 100 = Inr seeds"
  shows "\<exists>R. calculate_service_area sh na route c = Inr (map fst R, R) \<and> distinct (map fst R)
     \<and> (\<forall>v d. map_of R v = Some d \<longrightarrow>
           (\<exists>s \<in> set seeds. bounded_dist G s c v d)
           \<and> (\<forall>s \<in> set seeds. \<forall>d'. bounded_dist G s c v d' \<longrightarrow> d \<le> d'))
     \<and> (\<forall>v d'. (\<exists>s \<in> set seeds. bounded_dist G s c v d') \<longrightarrow> (\<exists>d. map_of R v = Some d))"
proof (cases "seeds = []")
  case True
  then have "calculate_service_area sh na route c = Inr (map fst [], [])"
    using g seeds by (simp add: calculate_service_area_def)
  with True show ?thesis by (intro exI [of _ "[]"]) simp
next
  case False
  from analyzer_readyD [OF rdy g] have wf: "nx_wellformed G" by simp
  from source_loop_spec [OF wf nn, of "[]" c seeds] obtain R where
    R: "source_loop G c seeds [] = Inr R" "distinct (map fst R)"
    and A: "\<forall>v d. map_of R v = Some d \<longrightarrow>
           (\<exists>s \<in> set seeds. bounded_dist G s c v d)
           \<and> (\<forall>s \<in> set seeds. \<forall>d'. bounded_dist G s c v d' \<longrightarrow> d \<le> d')"
    and B: "\<forall>v d'. (\<exists>s \<in> set seeds. bounded_dist G s c v d') \<longrightarrow> (\<exists>d. map_of R v = Some d)"
    by auto
  have "calculate_service_area sh na route c = Inr (map fst R, R)"
    using g seeds False R(1) by (simp add: calculate_service_area_def)
  with R(2) A B show ?thesis by blast
qed

lemma shortest_dist_self:
  assumes "nonneg_weights G" and "has_node G s"
  shows "shortest_dist G s s 0"
  using assms by (auto simp: shortest_dist_def intro: walk_refl dest: walk_nonneg)

lemma bounded_dist_nonneg_cutoff:
  assumes nn: "nonneg_weights G" and c: "0 \<le> c"
  shows "bounded_dist G s c v d = (shortest_dist G s v d \<and> d \<le> c)"
proof (cases "v = s")
  case False
  then show ?thesis by (simp add: bounded_dist_def)
next
  case True
  have "d \<le> c" if sd: "shortest_dist G s s d"
  proof -
    from sd have "has_node G s" by (auto simp: shortest_dist_def dest: walk_source_node)
    from shortest_dist_unique [OF sd shortest_dist_self [OF nn this]] c show ?thesis by simp
  qed
  with True show ?thesis by (auto simp: bounded_dist_def)
qed

lemma in_keys_iff_map_of: "(v \<in> set (map fst al)) = (\<exists>d. map_of al v = Some d)"
  using in_keys_map_of [of v al] map_of_in_keys [of al v] by auto

subsection \<open>The example evaluated\<close>

lemma road_table_built: "load_and_build_network (Some road_table) = Inr road_analyzer"
  by (simp add: load_and_build_network_def road_table_def road_analyzer_def road_graph_def
      build_step_def geom_coords_def store_coord_def add_edge_def add_node_def set_adj_def
      has_node_def Let_def)

lemma euclid_axis: "euclid (a, 0) (b, 0) = \<bar>a - b\<bar>"
  by (simp add: euclid_def)

lemma track_seeds:
  "find_nearest_nodes_on_route axis_shapely road_analyzer track 100 = Inr [1, 2]"
  by (simp add: find_nearest_nodes_on_route_def axis_shapely_def road_analyzer_def track_def
      py_truediv_def py_int_def find_nearest_node_def euclid_axis set_add_def upt_rec Let_def)

lemma dijkstra_from_1:
  "single_source_dijkstra_path_length road_graph 1 700 = Inr [(1, 0), (2, 300)]"
  by (simp add: single_source_dijkstra_path_length_def has_node_def road_graph_def
      dijkstra_loop.simps min_def less_eq_prod_def Let_def)

lemma dijkstra_from_2:
  "single_source_dijkstra_path_length road_graph 2 700 = Inr [(2, 0), (1, 300), (3, 500)]"
  by (simp add: single_source_dijkstra_path_length_def has_node_def road_graph_def
      dijkstra_loop.simps min_def less_eq_prod_def Let_def)

lemma graph_road_analyzer: "graph road_analyzer = Some road_graph"
  by (simp add: road_analyzer_def)

lemma has_node_road_graph: "has_node road_graph n = (n \<in> {1, 2, 3, 4})"
  by (auto simp: has_node_def road_graph_def)

lemma track_area_700:
  "calculate_service_area axis_shapely road_analyzer track 700
     = Inr ([1, 2, 3], [(1, 0), (2, 0), (3, 500)])"
  by (simp add: calculate_service_area_def track_seeds graph_road_analyzer
      dijkstra_from_1 dijkstra_from_2 has_node_road_graph keep_min_def)

lemma road_table_nonneg: "\<forall>row \<in> set road_table. 0 \<le> longitud row"
  by (simp add: road_table_def)

lemma dijkstra_from_1_1000:
  "single_source_dijkstra_path_length road_graph 1 1000 = Inr [(1, 0), (2, 300), (3, 800)]"
  by (simp add: single_source_dijkstra_path_length_def has_node_def road_graph_def
      dijkstra_loop.simps min_def less_eq_prod_def Let_def)

lemma dijkstra_from_2_1000:
  "single_source_dijkstra_path_length road_graph 2 1000
     = Inr [(2, 0), (1, 300), (3, 500), (4, 900)]"
  by (simp add: single_source_dijkstra_path_length_def has_node_def road_graph_def
      dijkstra_loop.simps min_def less_eq_prod_def Let_def)

lemma track_area_1000:
  "calculate_service_area axis_shapely road_analyzer track 1000
     = Inr ([1, 2, 3, 4], [(1, 0), (2, 0), (3, 500), (4, 900)])"
  by (simp add: calculate_service_area_def track_seeds graph_road_analyzer
      dijkstra_from_1_1000 dijkstra_from_2_1000 has_node_road_graph keep_min_def)

lemma far_track_samples:
  "\<forall>p \<in> set (route_samples axis_shapely far_track). \<forall>n d.
        find_nearest_node road_analyzer p = Inr (Some (n, d)) \<longrightarrow> 500 \<le> d"
  by (simp add: route_samples_def axis_shapely_def far_track_def road_analyzer_def
      py_int_def find_nearest_node_def euclid_axis upt_rec Let_def)

subsection \<open>The service area: claims\<close>



text \<open>
  C10, as amended. For an analyzer built from a road table with non-negative lengths, every
  route and every non-negative maximum distance, every distance in the returned dictionary
  lies between 0 and the maximum distance, and every seed node is a node of the graph and
  is stored with distance 0.
\<close>

theorem calculate_service_area_distance_bounds:
  assumes built: "load_and_build_network (Some segs) = Inr na"
    and lens: "\<forall>row \<in> set segs. 0 \<le> longitud row"
    and maxd: "0 \<le> max_distance"
    and seeds: "find_nearest_nodes_on_route sh na route 100 = Inr seeds"
  shows "\<exists>G R. graph na = Some G
     \<and> calculate_service_area sh na route max_distance = Inr (map fst R, R)
     \<and> (\<forall>(v, d) \<in> set R. 0 \<le> d \<and> d \<le> max_distance)
     \<and> (\<forall>s \<in> set seeds. has_node G s \<and> map_of R s = Some 0)"
proof -
  from built obtain G where g: "graph na = Some G"
    by (auto simp: load_and_build_network_def split: sum.splits if_splits)
  note rdy = load_and_build_network_ready [OF built]
  note nn = load_and_build_network_nonneg [OF built lens g]
  note bd = bounded_dist_nonneg_cutoff [OF nn maxd]
  from calculate_service_area_spec [OF rdy g nn seeds, of max_distance] obtain R where
    R: "calculate_service_area sh na route max_distance = Inr (map fst R, R)"
    and dis: "distinct (map fst R)"
    and A: "\<And>v d. map_of R v = Some d \<Longrightarrow>
           (\<exists>s \<in> set seeds. shortest_dist G s v d \<and> d \<le> max_distance)
           \<and> (\<forall>s \<in> set seeds. \<forall>d'. shortest_dist G s v d' \<and> d' \<le> max_distance \<longrightarrow> d \<le> d')"
    and B: "\<And>v d'. (\<exists>s \<in> set seeds. shortest_dist G s v d' \<and> d' \<le> max_distance)
           \<Longrightarrow> (\<exists>d. map_of R v = Some d)"
    unfolding bd by blast
  have bounds: "\<forall>(v, d) \<in> set R. 0 \<le> d \<and> d \<le> max_distance"
  proof (intro ballI, clarify)
    fix v d assume "(v, d) \<in> set R"
    with dis have "map_of R v = Some d" by simp
    from A [OF this] obtain s where "shortest_dist G s v d" "d \<le> max_distance" by blast
    then show "0 \<le> d \<and> d \<le> max_distance"
      using nn by (auto simp: shortest_dist_def dest: walk_nonneg)
  qed
  have seed0: "has_node G s \<and> map_of R s = Some 0" if s: "s \<in> set seeds" for s
  proof -
    have "s \<in> {n. \<exists>p \<in> set (route_samples sh route). \<exists>d.
           find_nearest_node na p = Inr (Some (n, d)) \<and> d < 500}"
      using find_nearest_nodes_on_route_ready [OF rdy g, of sh route] seeds s by auto
    then obtain p d where "find_nearest_node na p = Inr (Some (s, d))" by blast
    from find_nearest_node_is_node [OF rdy g this] have node: "has_node G s" .
    note self = shortest_dist_self [OF nn node]
    with B [of s 0] s maxd obtain d0 where d0: "map_of R s = Some d0" by blast
    from A [OF d0] s self maxd have "d0 \<le> 0" by blast
    moreover from d0 bounds have "0 \<le> d0" by (auto dest: map_of_SomeD)
    ultimately show ?thesis using node d0 by simp
  qed
  from g R bounds seed0 show ?thesis by blast
qed

theorem calculate_service_area_distance_bounds_witness:
  "\<exists>R. calculate_service_area axis_shapely road_analyzer track 700 = Inr (map fst R, R)
     \<and> R = [(1, 0), (2, 0), (3, 500)]
     \<and> has_node road_graph 1 \<and> map_of R 1 = Some 0
     \<and> has_node road_graph 2 \<and> map_of R 2 = Some 0"
proof -
  from calculate_service_area_distance_bounds
    [OF road_table_built road_table_nonneg _ track_seeds, of 700]
  obtain G R where g: "graph road_analyzer = Some G"
    and R: "calculate_service_area axis_shapely road_analyzer track 700 = Inr (map fst R, R)"
    and seed0: "\<And>s. s \<in> set [1, 2] \<Longrightarrow> has_node G s \<and> map_of R s = Some 0"
    by auto
  from g have G: "G = road_graph" by (simp add: graph_road_analyzer)
  from R have Rv: "R = [(1, 0), (2, 0), (3, 500)]" by (simp add: track_area_700)
  from seed0 [of 1] seed0 [of 2] R Rv show ?thesis unfolding G by (intro exI [of _ R]) simp
qed

lemma dijkstra_from_1_negative:
  "single_source_dijkstra_path_length road_graph 1 (- 5) = Inr [(1, 0)]"
  by (simp add: single_source_dijkstra_path_length_def has_node_def road_graph_def
      dijkstra_loop.simps min_def less_eq_prod_def Let_def)

lemma dijkstra_from_2_negative:
  "single_source_dijkstra_path_length road_graph 2 (- 5) = Inr [(2, 0)]"
  by (simp add: single_source_dijkstra_path_length_def has_node_def road_graph_def
      dijkstra_loop.simps min_def less_eq_prod_def Let_def)

text \<open>
  The claim as written fails for a negative maximum distance: the search stores its source
  with distance 0 without comparing it to the cutoff, so with a maximum of -5 m the two
  seed nodes of the track are returned with distance 0, which is greater than the maximum.
\<close>

theorem negative_max_distance_counterexample:
  "calculate_service_area axis_shapely road_analyzer track (- 5)
     = Inr ([1, 2], [(1, 0), (2, 0)])
   \<and> (\<exists>(v, d) \<in> set [(1 :: node, 0 :: real), (2, 0)]. \<not> d \<le> - 5)"
  by (simp add: calculate_service_area_def track_seeds graph_road_analyzer
      dijkstra_from_1_negative dijkstra_from_2_negative has_node_road_graph keep_min_def)

text \<open>
  C8. For a fixed analyzer and route and two maximum distances \<open>d1 \<le> d2\<close>, both calls
  return, and the reachable nodes for \<open>d1\<close> are among the reachable nodes for \<open>d2\<close>.
\<close>

theorem calculate_service_area_monotone:
  assumes built: "load_and_build_network (Some segs) = Inr na"
    and lens: "\<forall>row \<in> set segs. 0 \<le> longitud row"
    and le: "d1 \<le> d2"
  shows "\<exists>nodes1 R1 nodes2 R2.
       calculate_service_area sh na route d1 = Inr (nodes1, R1)
     \<and> calculate_service_area sh na route d2 = Inr (nodes2, R2)
     \<and> set nodes1 \<subseteq> set nodes2"
proof -
  from built obtain G where g: "graph na = Some G"
    by (auto simp: load_and_build_network_def split: sum.splits if_splits)
  note rdy = load_and_build_network_ready [OF built]
  note nn = load_and_build_network_nonneg [OF built lens g]
  from find_nearest_nodes_on_route_ready [OF rdy g, of sh route] obtain seeds where
    seeds: "find_nearest_nodes_on_route sh na route 100 = Inr seeds"
    by blast
  from calculate_service_area_spec [OF rdy g nn seeds, of d1] obtain R1 where
    R1: "calculate_service_area sh na route d1 = Inr (map fst R1, R1)"
    and A1: "\<And>v d. map_of R1 v = Some d \<Longrightarrow> \<exists>s \<in> set seeds. bounded_dist G s d1 v d"
    by blast
  from calculate_service_area_spec [OF rdy g nn seeds, of d2] obtain R2 where
    R2: "calculate_service_area sh na route d2 = Inr (map fst R2, R2)"
    and B2: "\<And>v d'. (\<exists>s \<in> set seeds. bounded_dist G s d2 v d') \<Longrightarrow> (\<exists>d. map_of R2 v = Some d)"
    by blast
  have "set (map fst R1) \<subseteq> set (map fst R2)"
  proof
    fix v assume "v \<in> set (map fst R1)"
    then obtain d where "map_of R1 v = Some d" unfolding in_keys_iff_map_of by blast
    from A1 [OF this] obtain s where s: "s \<in> set seeds" "bounded_dist G s d1 v d" by blast
    with le have "bounded_dist G s d2 v d" by (auto simp: bounded_dist_def)
    with s(1) B2 [of v d] show "v \<in> set (map fst R2)" unfolding in_keys_iff_map_of by blast
  qed
  with R1 R2 show ?thesis by blast
qed

theorem calculate_service_area_monotone_witness:
  "\<exists>R1 R2. calculate_service_area axis_shapely road_analyzer track 700 = Inr ([1, 2, 3], R1)
     \<and> calculate_service_area axis_shapely road_analyzer track 1000 = Inr ([1, 2, 3, 4], R2)
     \<and> set [1, 2, 3 :: node] \<subseteq> set [1, 2, 3, 4]"
proof -
  from calculate_service_area_monotone
    [OF road_table_built road_table_nonneg, of 700 1000 axis_shapely track]
  obtain nodes1 R1 nodes2 R2 where
    "calculate_service_area axis_shapely road_analyzer track 700 = Inr (nodes1, R1)"
    "calculate_service_area axis_shapely road_analyzer track 1000 = Inr (nodes2, R2)"
    "set nodes1 \<subseteq> set nodes2"
    by auto
  then show ?thesis by (simp add: track_area_700 track_area_1000)
qed

text \<open>
  C7. When no sampled point of the route has its nearest node closer than the 500 m
  cutoff, \<^verbatim>\<open>calculate_service_area\<close> returns the empty node set and the empty
  dictionary, as a value and not as an error, whatever the analyzer that
  \<open>load_and_build_network\<close> returned.
\<close>

theorem calculate_service_area_no_seeds:
  assumes built: "load_and_build_network rnc = Inr na"
    and far: "\<forall>p \<in> set (route_samples sh route). \<forall>n d.
        find_nearest_node na p = Inr (Some (n, d)) \<longrightarrow> 500 \<le> d"
  shows "calculate_service_area sh na route max_distance = Inr ([], [])"
proof (cases "graph na")
  case None
  then show ?thesis by (simp add: calculate_service_area_def)
next
  case (Some G)
  note rdy = load_and_build_network_ready [OF built]
  from find_nearest_nodes_on_route_ready [OF rdy Some, of sh route] obtain seeds where
    seeds: "find_nearest_nodes_on_route sh na route 100 = Inr seeds"
    and S: "set seeds = {n. \<exists>p \<in> set (route_samples sh route). \<exists>d.
           find_nearest_node na p = Inr (Some (n, d)) \<and> d < 500}"
    by blast
  have "seeds = []"
  proof (cases seeds)
    case Nil
    then show ?thesis .
  next
    case (Cons n ns)
    then have "n \<in> set seeds" by simp
    with S obtain p d where "p \<in> set (route_samples sh route)"
      "find_nearest_node na p = Inr (Some (n, d))" "d < 500"
      by blast
    with far show ?thesis by fastforce
  qed
  with Some seeds show ?thesis by (simp add: calculate_service_area_def)
qed

theorem calculate_service_area_no_seeds_witness:
  "calculate_service_area axis_shapely road_analyzer far_track 700 = Inr ([], [])"
  by (rule calculate_service_area_no_seeds [OF road_table_built far_track_samples])

text \<open>
  C5. For an analyzer built from a road table and every query point, the test finds a
  nearest node (none of the nodes is closer in Euclidean distance) and returns, without
  raising: reachable exactly when that node is in the reachable set and the
  point-to-node distance plus the node's entry in the distance dictionary (0 when it has
  none) is at most the maximum distance, with that sum as total distance; unreachable,
  with no finite total, when the node is not in the reachable set.
\<close>

theorem is_point_in_service_area_nearest_node:
  assumes built: "load_and_build_network (Some segs) = Inr na"
  shows "\<exists>i < length (node_coords na).
       (\<forall>j < length (node_coords na).
           euclid (snd (node_coords na ! i)) p \<le> euclid (snd (node_coords na ! j)) p)
     \<and> is_point_in_service_area na p service_area_nodes node_distances max_distance =
         Inr (if fst (node_coords na ! i) \<in> service_area_nodes
              then (euclid (snd (node_coords na ! i)) p
                      + (case map_of node_distances (fst (node_coords na ! i)) of
                           None \<Rightarrow> 0 | Some x \<Rightarrow> x) \<le> max_distance,
                    Some (euclid (snd (node_coords na ! i)) p
                      + (case map_of node_distances (fst (node_coords na ! i)) of
                           None \<Rightarrow> 0 | Some x \<Rightarrow> x)))
              else (False, None))"
proof -
  from built obtain G where g: "graph na = Some G"
    by (auto simp: load_and_build_network_def split: sum.splits if_splits)
  note rdy = load_and_build_network_ready [OF built]
  from find_nearest_node_ready [OF rdy g, of p] obtain i d where
    f: "find_nearest_node na p = Inr (Some (node_ids na ! i, d))"
    and i: "i < length (node_coords na)" and d: "d = euclid (snd (node_coords na ! i)) p"
    and least: "\<forall>j < length (node_coords na). d \<le> euclid (snd (node_coords na ! j)) p"
    by blast
  from analyzer_readyD [OF rdy g] i have n: "node_ids na ! i = fst (node_coords na ! i)"
    by simp
  show ?thesis
    using i least f unfolding d n
    by (intro exI [of _ i]) (simp add: is_point_in_service_area_def Let_def)
qed

theorem is_point_in_service_area_nearest_node_witness:
  "is_point_in_service_area road_analyzer (900, 0) (set [1, 2, 3]) [(1, 0), (2, 0), (3, 500)] 700
     = Inr (True, Some 600)
   \<and> is_point_in_service_area road_analyzer (1100, 0) (set [1, 2, 3]) [(1, 0), (2, 0), (3, 500)] 700
     = Inr (False, None)"
proof -
  let ?nc = "node_coords road_analyzer"
  let ?nd = "[(1, 0), (2, 0), (3, 500)] :: (node \<times> real) list"
  have coords: "?nc = [(1, (0, 0)), (2, (300, 0)), (3, (800, 0)), (4, (1200, 0))]"
    by (simp add: road_analyzer_def)
  have less4: "i < 4 \<Longrightarrow> i = 0 \<or> i = 1 \<or> i = 2 \<or> i = (3::nat)" for i by arith
  from is_point_in_service_area_nearest_node [OF road_table_built,
      of "(900, 0)" "set [1, 2, 3]" ?nd 700]
  obtain i where i: "i < length ?nc"
    and least: "\<forall>j < length ?nc. euclid (snd (?nc ! i)) (900, 0) \<le> euclid (snd (?nc ! j)) (900, 0)"
    and r: "is_point_in_service_area road_analyzer (900, 0) (set [1, 2, 3]) ?nd 700 =
         Inr (if fst (?nc ! i) \<in> set [1, 2, 3]
              then (euclid (snd (?nc ! i)) (900, 0)
                      + (case map_of ?nd (fst (?nc ! i)) of None \<Rightarrow> 0 | Some x \<Rightarrow> x) \<le> 700,
                    Some (euclid (snd (?nc ! i)) (900, 0)
                      + (case map_of ?nd (fst (?nc ! i)) of None \<Rightarrow> 0 | Some x \<Rightarrow> x)))
              else (False, None))"
    by blast
  from i have i4: "i < 4" by (simp add: coords)
  have "(2::nat) < length ?nc" by (simp add: coords)
  with least have "euclid (snd (?nc ! i)) (900, 0) \<le> euclid (snd (?nc ! 2)) (900, 0)"
    by blast
  with less4 [OF i4] have "i = 2" by (auto simp: coords euclid_axis)
  with r have a: "is_point_in_service_area road_analyzer (900, 0) (set [1, 2, 3]) ?nd 700
      = Inr (True, Some 600)"
    by (simp add: coords euclid_axis)
  have b: "is_point_in_service_area road_analyzer (1100, 0) (set [1, 2, 3]) ?nd 700
      = Inr (False, None)"
    by (simp add: is_point_in_service_area_def find_nearest_node_def road_analyzer_def euclid_axis)
  from a b show ?thesis by simp
qed

lemma map_of_add_node:
  "map_of (add_node u G) x = (if x = u \<and> \<not> has_node G u then Some [] else map_of G x)"
proof (cases "has_node G u")
  case True
  then show ?thesis by (simp add: add_node_def)
next
  case False
  then have "map_of G u = None" by (simp add: has_node_def map_of_eq_None_iff)
  with False show ?thesis
    by (cases "map_of G x") (auto simp: add_node_def map_add_def)
qed

lemma edge_data_add_node: "edge_data (add_node u G) x y = edge_data G x y"
proof (cases "x = u \<and> \<not> has_node G u")
  case True
  then have "map_of G u = None" by (simp add: has_node_def map_of_eq_None_iff)
  with True show ?thesis by (simp add: edge_data_def map_of_add_node)
next
  case False
  then show ?thesis by (auto simp: edge_data_def map_of_add_node)
qed

lemma edge_data_set_adj:
  "edge_data (set_adj a b attr G) x y
     = (if x = a \<and> y = b \<and> has_node G a then Some attr else edge_data G x y)"
proof (cases "map_of G a")
  case None
  then have "\<not> has_node G a" by (simp add: has_node_def map_of_eq_None_iff)
  with None show ?thesis by (simp add: set_adj_def)
next
  case (Some nbrs)
  then have "has_node G a" unfolding has_node_def by (rule map_of_in_keys)
  with Some show ?thesis
    by (simp add: set_adj_def edge_data_def update_conv')
qed

lemma edge_data_add_edge:
  "edge_data (add_edge a b attr G) x y
     = (if x = a \<and> y = b \<or> x = b \<and> y = a then Some attr else edge_data G x y)"
proof -
  define G1 where "G1 = add_node b (add_node a G)"
  define G2 where "G2 = set_adj a b attr G1"
  have h1: "has_node G1 a" by (simp add: G1_def has_node_add_node)
  have h2: "has_node G2 b" by (simp add: G2_def G1_def has_node_set_adj has_node_add_node)
  have e0: "edge_data G1 x y = edge_data G x y"
    by (simp add: G1_def edge_data_add_node)
  have e1: "edge_data G2 x y = (if x = a \<and> y = b then Some attr else edge_data G x y)"
    unfolding G2_def edge_data_set_adj e0 using h1 by simp
  have e2: "edge_data (set_adj b a attr G2) x y
      = (if x = b \<and> y = a then Some attr else edge_data G2 x y)"
    unfolding edge_data_set_adj using h2 by simp
  have "add_edge a b attr G = set_adj b a attr G2"
    by (simp add: add_edge_def G2_def G1_def)
  then have "edge_data (add_edge a b attr G) x y
      = (if x = b \<and> y = a then Some attr
         else if x = a \<and> y = b then Some attr else edge_data G x y)"
    by (simp only: e2 e1)
  also have "\<dots> = (if x = a \<and> y = b \<or> x = b \<and> y = a then Some attr else edge_data G x y)"
    by argo
  finally show ?thesis .
qed

lemma last_between_Cons:
  "last_between (row # rest) u v =
     (case last_between rest u v of
        Some t \<Rightarrow> Some t
      | None \<Rightarrow> if usable row \<and> joins row u v then Some row else None)"
  by (simp add: last_between_def split: list.splits)

lemma build_step_edge_data:
  assumes "build_step row st = Inr st'"
  shows "edge_data (fst st') u v
     = (if usable row \<and> joins row u v then edge_of row else edge_data (fst st) u v)"
proof (cases "seg_geometry row")
  case None
  with assms show ?thesis by (simp add: build_step_def usable_def)
next
  case (Some g)
  show ?thesis
  proof (cases "geom_coords g")
    case (Inl e)
    with Some assms show ?thesis by (simp add: build_step_def)
  next
    case (Inr coords)
    with Some assms show ?thesis
      by (auto simp: build_step_def usable_def joins_def edge_of_def edge_data_add_edge Let_def
          split: if_splits)
  qed
qed

lemma build_loop_edge_data:
  "build_loop segs st = Inr st' \<Longrightarrow>
     edge_data (fst st') u v
       = (case last_between segs u v of None \<Rightarrow> edge_data (fst st) u v | Some row \<Rightarrow> edge_of row)"
proof (induction segs arbitrary: st)
  case Nil
  then show ?case by (simp add: last_between_def)
next
  case (Cons row rest)
  from Cons.prems obtain st1 where s1: "build_step row st = Inr st1"
    and r: "build_loop rest st1 = Inr st'"
    by (auto split: sum.splits)
  show ?case
  proof (cases "last_between rest u v")
    case None
    then show ?thesis
      by (simp add: Cons.IH [OF r] build_step_edge_data [OF s1] last_between_Cons)
  next
    case (Some t)
    then show ?thesis
      by (simp add: Cons.IH [OF r] last_between_Cons)
  qed
qed

text \<open>
  C2, as amended. The graph holds at most one edge for a pair of nodes: the edge between
  \<open>u\<close> and \<open>v\<close> carries the length and the geometry of the last usable record of the
  table whose endpoints are \<open>u\<close> and \<open>v\<close>, in either order, and there is no edge
  between them when the table has no such record.
\<close>

theorem graph_keeps_last_segment:
  assumes "load_and_build_network (Some segs) = Inr na"
  shows "\<exists>G. graph na = Some G
     \<and> (\<forall>u v. edge_data G u v
           = (case last_between segs u v of None \<Rightarrow> None | Some row \<Rightarrow> edge_of row))"
proof -
  from assms obtain G nc where b: "build_loop segs ([], []) = Inr (G, nc)"
    and g: "graph na = Some G"
    by (auto simp: load_and_build_network_def split: sum.splits if_splits)
  have empty: "edge_data (fst (([], []) :: nxgraph \<times> (node \<times> point) list)) u v = None" for u v
    by (simp add: edge_data_def)
  have "edge_data G u v
       = (case last_between segs u v of None \<Rightarrow> None | Some row \<Rightarrow> edge_of row)" for u v
    using build_loop_edge_data [OF b, of u v] unfolding empty by simp
  with g show ?thesis by blast
qed

lemma parallel_table_built:
  "load_and_build_network (Some parallel_table) =
     Inr \<lparr>graph = Some
            [(1, [(2, \<lparr>weight = 300, geometry = LineString [(0, 0), (50, 140), (100, 0)]\<rparr>)]),
             (2, [(1, \<lparr>weight = 300, geometry = LineString [(0, 0), (50, 140), (100, 0)]\<rparr>)])],
          node_coords = [(1, (0, 0)), (2, (100, 0))],
          coord_tree = Some [(0, 0), (100, 0)],
          node_ids = [1, 2]\<rparr>"
  by (simp add: load_and_build_network_def parallel_table_def
      build_step_def geom_coords_def store_coord_def add_edge_def add_node_def set_adj_def
      has_node_def Let_def)

theorem graph_keeps_last_segment_witness:
  "\<exists>na G. load_and_build_network (Some parallel_table) = Inr na \<and> graph na = Some G
     \<and> edge_data G 1 2
         = Some \<lparr>weight = 300, geometry = LineString [(0, 0), (50, 140), (100, 0)]\<rparr>
     \<and> edge_data G 1 1 = None"
proof -
  from graph_keeps_last_segment [OF parallel_table_built] obtain G where
    g: "graph \<lparr>graph = Some
            [(1, [(2, \<lparr>weight = 300, geometry = LineString [(0, 0), (50, 140), (100, 0)]\<rparr>)]),
             (2, [(1, \<lparr>weight = 300, geometry = LineString [(0, 0), (50, 140), (100, 0)]\<rparr>)])],
          node_coords = [(1, (0, 0)), (2, (100, 0))],
          coord_tree = Some [(0, 0), (100, 0)],
          node_ids = [1, 2]\<rparr> = Some G"
    and e: "\<And>u v. edge_data G u v
           = (case last_between parallel_table u v of None \<Rightarrow> None | Some row \<Rightarrow> edge_of row)"
    by blast
  have "edge_data G 1 2
         = Some \<lparr>weight = 300, geometry = LineString [(0, 0), (50, 140), (100, 0)]\<rparr>"
    unfolding e
    by (simp add: last_between_def parallel_table_def usable_def joins_def geom_coords_def
        edge_of_def)
  moreover have "edge_data G 1 1 = None"
    unfolding e
    by (simp add: last_between_def parallel_table_def usable_def joins_def geom_coords_def
        edge_of_def)
  ultimately show ?thesis using parallel_table_built g by blast
qed

text \<open>
  The claim fails on the two parallel records: the graph has one edge between nodes 1 and
  2, of weight 300; the record of length 100 is not an edge of the graph.
\<close>

theorem parallel_segments_counterexample:
  "map_sum id graph (load_and_build_network (Some parallel_table)) =
     Inr (Some
       [(1, [(2, \<lparr>weight = 300, geometry = LineString [(0, 0), (50, 140), (100, 0)]\<rparr>)]),
        (2, [(1, \<lparr>weight = 300, geometry = LineString [(0, 0), (50, 140), (100, 0)]\<rparr>)])])"
  by (simp add: parallel_table_built)

lemma nearest_candidate_from:
  "\<exists>d idx. nearest_candidate distance p cands (Some d0, Some i0) = (Some d, Some idx)
     \<and> d \<le> d0 \<and> (\<forall>c \<in> set cands. d \<le> distance p (snd c))
     \<and> (d = d0 \<and> idx = i0 \<or> (\<exists>g. (idx, g) \<in> set cands \<and> d = distance p g))"
proof (induction cands arbitrary: d0 i0)
  case Nil
  then show ?case by simp
next
  case (Cons c rest)
  obtain j h where c: "c = (j, h)" by (cases c)
  show ?case
  proof (cases "distance p h < d0")
    case True
    from Cons.IH [of "distance p h" j] obtain d idx where
      r: "nearest_candidate distance p rest (Some (distance p h), Some j) = (Some d, Some idx)"
      and le: "d \<le> distance p h" and all: "\<forall>c \<in> set rest. d \<le> distance p (snd c)"
      and w: "d = distance p h \<and> idx = j \<or> (\<exists>g. (idx, g) \<in> set rest \<and> d = distance p g)"
      by blast
    have "nearest_candidate distance p (c # rest) (Some d0, Some i0) = (Some d, Some idx)"
      using True r by (simp add: c)
    moreover have "d \<le> d0" using le True by simp
    moreover have "\<forall>c' \<in> set (c # rest). d \<le> distance p (snd c')" using le all by (simp add: c)
    moreover have "\<exists>g. (idx, g) \<in> set (c # rest) \<and> d = distance p g"
      using w by (auto simp: c)
    ultimately show ?thesis by blast
  next
    case False
    from Cons.IH [of d0 i0] obtain d idx where
      r: "nearest_candidate distance p rest (Some d0, Some i0) = (Some d, Some idx)"
      and le: "d \<le> d0" and all: "\<forall>c \<in> set rest. d \<le> distance p (snd c)"
      and w: "d = d0 \<and> idx = i0 \<or> (\<exists>g. (idx, g) \<in> set rest \<and> d = distance p g)"
      by blast
    have "nearest_candidate distance p (c # rest) (Some d0, Some i0) = (Some d, Some idx)"
      using False r by (simp add: c)
    moreover have "\<forall>c' \<in> set (c # rest). d \<le> distance p (snd c')"
      using le all False by (simp add: c)
    moreover have "d = d0 \<and> idx = i0 \<or> (\<exists>g. (idx, g) \<in> set (c # rest) \<and> d = distance p g)"
      using w by auto
    ultimately show ?thesis using le by blast
  qed
qed

lemma nearest_candidate_start:
  assumes "cands \<noteq> []"
  shows "\<exists>d idx g. nearest_candidate distance p cands (None, None) = (Some d, Some idx)
     \<and> (idx, g) \<in> set cands \<and> d = distance p g
     \<and> (\<forall>c \<in> set cands. d \<le> distance p (snd c))"
proof -
  from assms obtain j h rest where c: "cands = (j, h) # rest" by (cases cands) auto
  from nearest_candidate_from [of distance p rest "distance p h" j] obtain d idx where
    r: "nearest_candidate distance p rest (Some (distance p h), Some j) = (Some d, Some idx)"
    and le: "d \<le> distance p h" and all: "\<forall>c \<in> set rest. d \<le> distance p (snd c)"
    and w: "d = distance p h \<and> idx = j \<or> (\<exists>g. (idx, g) \<in> set rest \<and> d = distance p g)"
    by blast
  have "nearest_candidate distance p cands (None, None) = (Some d, Some idx)"
    using r by (simp add: c)
  moreover from w obtain g where "(idx, g) \<in> set cands" "d = distance p g"
    by (auto simp: c)
  moreover have "\<forall>c \<in> set cands. d \<le> distance p (snd c)" using le all by (simp add: c)
  ultimately show ?thesis by blast
qed

lemma match_point_None:
  "(match_point bounds distance mm p = None)
     = (\<forall>c \<in> set (candidates bounds mm p). buffer_m mm < distance p (snd c) * 111000)"
proof (cases "candidates bounds mm p = []")
  case True
  then show ?thesis by (simp add: match_point_def)
next
  case False
  from nearest_candidate_start [OF False, of distance p] obtain d idx g where
    r: "nearest_candidate distance p (candidates bounds mm p) (None, None) = (Some d, Some idx)"
    and g: "(idx, g) \<in> set (candidates bounds mm p)" "d = distance p g"
    and all: "\<forall>c \<in> set (candidates bounds mm p). d \<le> distance p (snd c)"
    by blast
  have "(match_point bounds distance mm p = None) = (buffer_m mm < d * 111000)"
    using False r by (auto simp: match_point_def Let_def)
  also have "\<dots> = (\<forall>c \<in> set (candidates bounds mm p). buffer_m mm < distance p (snd c) * 111000)"
  proof
    assume a: "buffer_m mm < d * 111000"
    show "\<forall>c \<in> set (candidates bounds mm p). buffer_m mm < distance p (snd c) * 111000"
    proof
      fix c assume "c \<in> set (candidates bounds mm p)"
      with all have "d \<le> distance p (snd c)" by blast
      with a show "buffer_m mm < distance p (snd c) * 111000" by simp
    qed
  next
    assume "\<forall>c \<in> set (candidates bounds mm p). buffer_m mm < distance p (snd c) * 111000"
    with g show "buffer_m mm < d * 111000" by fastforce
  qed
  finally show ?thesis .
qed

lemma match_point_Some:
  assumes "match_point bounds distance mm p = Some (idx, dm)"
  shows "\<exists>g. (idx, g) \<in> set (candidates bounds mm p) \<and> dm = distance p g * 111000
     \<and> dm \<le> buffer_m mm
     \<and> (\<forall>c \<in> set (candidates bounds mm p). distance p g \<le> distance p (snd c))"
proof -
  from assms have ne: "candidates bounds mm p \<noteq> []"
    by (auto simp: match_point_def)
  from nearest_candidate_start [OF ne, of distance p] obtain d j g where
    r: "nearest_candidate distance p (candidates bounds mm p) (None, None) = (Some d, Some j)"
    and g: "(j, g) \<in> set (candidates bounds mm p)" "d = distance p g"
    and all: "\<forall>c \<in> set (candidates bounds mm p). d \<le> distance p (snd c)"
    by blast
  from assms ne r have "idx = j" "dm = d * 111000" "dm \<le> buffer_m mm"
    by (auto simp: match_point_def Let_def split: if_splits)
  with g all show ?thesis by blast
qed

lemma match_loop_segments:
  "set (fst (match_loop bounds distance mm i ps (segs, ds, u)))
     = set segs \<union>
       {\<lparr>seg_index = idx, distance_m = d, orden = i + k\<rparr> | k idx d.
          k < length ps \<and> match_point bounds distance mm (ps ! k) = Some (idx, d)}"
proof (induction ps arbitrary: i segs ds u)
  case Nil
  then show ?case by simp
next
  case (Cons p rest)
  let ?M = "\<lambda>i ps. {\<lparr>seg_index = idx, distance_m = d, orden = i + k\<rparr> | k idx d.
          k < length ps \<and> match_point bounds distance mm (ps ! k) = Some (idx, d)}"
  have split: "?M i (p # rest) =
      {\<lparr>seg_index = idx, distance_m = d, orden = i\<rparr> | idx d.
          match_point bounds distance mm p = Some (idx, d)} \<union> ?M (Suc i) rest"
  proof (intro set_eqI iffI)
    fix s assume "s \<in> ?M i (p # rest)"
    then obtain k idx d where k: "s = \<lparr>seg_index = idx, distance_m = d, orden = i + k\<rparr>"
      "k < length (p # rest)" "match_point bounds distance mm ((p # rest) ! k) = Some (idx, d)"
      by blast
    show "s \<in> {\<lparr>seg_index = idx, distance_m = d, orden = i\<rparr> | idx d.
          match_point bounds distance mm p = Some (idx, d)} \<union> ?M (Suc i) rest"
    proof (cases k)
      case 0
      with k show ?thesis by simp
    next
      case (Suc k')
      with k have "s = \<lparr>seg_index = idx, distance_m = d, orden = Suc i + k'\<rparr>"
        "k' < length rest" "match_point bounds distance mm (rest ! k') = Some (idx, d)"
        by simp_all
      then show ?thesis by blast
    qed
  next
    fix s assume "s \<in> {\<lparr>seg_index = idx, distance_m = d, orden = i\<rparr> | idx d.
          match_point bounds distance mm p = Some (idx, d)} \<union> ?M (Suc i) rest"
    then consider idx d where "s = \<lparr>seg_index = idx, distance_m = d, orden = i\<rparr>"
        "match_point bounds distance mm p = Some (idx, d)"
      | k idx d where "s = \<lparr>seg_index = idx, distance_m = d, orden = Suc i + k\<rparr>"
        "k < length rest" "match_point bounds distance mm (rest ! k) = Some (idx, d)"
      by blast
    then show "s \<in> ?M i (p # rest)"
    proof cases
      case 1
      then have "s = \<lparr>seg_index = idx, distance_m = d, orden = i + 0\<rparr>"
        "0 < length (p # rest)" "match_point bounds distance mm ((p # rest) ! 0) = Some (idx, d)"
        by simp_all
      then show ?thesis by blast
    next
      case 2
      then have "s = \<lparr>seg_index = idx, distance_m = d, orden = i + Suc k\<rparr>"
        "Suc k < length (p # rest)"
        "match_point bounds distance mm ((p # rest) ! Suc k) = Some (idx, d)"
        by simp_all
      then show ?thesis by blast
    qed
  qed
  show ?case
  proof (cases "match_point bounds distance mm p")
    case None
    then show ?thesis
      unfolding split by (simp add: Cons.IH)
  next
    case (Some a)
    obtain idx d where a: "a = (idx, d)" by (cases a)
    show ?thesis
      unfolding split using Some by (auto simp: a Cons.IH)
  qed
qed

lemma matched_segments_match:
  assumes "match bounds distance mm = Inr res"
  shows "matched_segments res = fst (match_loop bounds distance mm 0 (gpx mm) ([], [], 0))"
  using assms
  by (auto simp: match_def Let_def split: prod.splits if_splits sum.splits)

text \<open>
  C6. For every point of the track: the point is matched exactly when one of its
  candidate segments lies within the tolerance, the distance in degrees times 111000
  being the distance in metres; and a matched point is recorded with a candidate segment
  of minimum distance to the point, with that distance in metres, which is at most the
  tolerance. With a tolerance of 50 m a point whose candidates are all 60 m away is
  unmatched and a point 40 m from its nearest candidate is matched with distance 40.
\<close>

theorem match_nearest_within_tolerance:
  assumes m: "match bounds distance mm = Inr res" and i: "i < length (gpx mm)"
  shows "((\<exists>s \<in> set (matched_segments res). orden s = i)
           = (\<exists>c \<in> set (candidates bounds mm (gpx mm ! i)).
                distance (gpx mm ! i) (snd c) * 111000 \<le> buffer_m mm))
     \<and> (\<forall>s \<in> set (matched_segments res). orden s = i \<longrightarrow>
           (\<exists>g. (seg_index s, g) \<in> set (candidates bounds mm (gpx mm ! i))
              \<and> distance_m s = distance (gpx mm ! i) g * 111000
              \<and> distance_m s \<le> buffer_m mm
              \<and> (\<forall>c \<in> set (candidates bounds mm (gpx mm ! i)).
                    distance (gpx mm ! i) g \<le> distance (gpx mm ! i) (snd c))))"
proof -
  let ?p = "gpx mm ! i"
  have segs: "set (matched_segments res) =
      {\<lparr>seg_index = idx, distance_m = d, orden = k\<rparr> | k idx d.
          k < length (gpx mm) \<and> match_point bounds distance mm (gpx mm ! k) = Some (idx, d)}"
    unfolding matched_segments_match [OF m]
    using match_loop_segments [of bounds distance mm 0 "gpx mm" "[]" "[]" 0] by simp
  have at_i: "(\<exists>s \<in> set (matched_segments res). orden s = i)
      = (match_point bounds distance mm ?p \<noteq> None)"
  proof
    assume "\<exists>s \<in> set (matched_segments res). orden s = i"
    then obtain idx d where "match_point bounds distance mm ?p = Some (idx, d)"
      unfolding segs by auto
    then show "match_point bounds distance mm ?p \<noteq> None" by simp
  next
    assume "match_point bounds distance mm ?p \<noteq> None"
    then obtain idx d where "match_point bounds distance mm ?p = Some (idx, d)" by auto
    with i have "\<lparr>seg_index = idx, distance_m = d, orden = i\<rparr> \<in> set (matched_segments res)"
      unfolding segs by blast
    then show "\<exists>s \<in> set (matched_segments res). orden s = i" by force
  qed
  have first: "(\<exists>s \<in> set (matched_segments res). orden s = i)
           = (\<exists>c \<in> set (candidates bounds mm ?p). distance ?p (snd c) * 111000 \<le> buffer_m mm)"
    unfolding at_i match_point_None by (auto simp: not_less)
  have second: "\<exists>g. (seg_index s, g) \<in> set (candidates bounds mm ?p)
              \<and> distance_m s = distance ?p g * 111000
              \<and> distance_m s \<le> buffer_m mm
              \<and> (\<forall>c \<in> set (candidates bounds mm ?p). distance ?p g \<le> distance ?p (snd c))"
    if s: "s \<in> set (matched_segments res)" "orden s = i" for s
  proof -
    from s obtain idx d where "s = \<lparr>seg_index = idx, distance_m = d, orden = i\<rparr>"
      "match_point bounds distance mm ?p = Some (idx, d)"
      unfolding segs by auto
    with match_point_Some [OF this(2)] show ?thesis by simp
  qed
  from first second show ?thesis by blast
qed

lemma two_point_match:
  "match hseg_bounds hseg_distance two_point_matcher =
     Inr \<lparr>matched_segments = [\<lparr>seg_index = 7, distance_m = 40, orden = 0\<rparr>],
          confidence = 20, distance_avg_m = Some 40, unmatched_points = 1, total_points = 2,
          match_rate_pct = 50\<rparr>"
  by (simp add: match_def two_point_matcher_def new_map_matcher_def match_point_def
      candidates_def sindex_intersection_def point_buffer_bounds_def boxes_intersect_def
      hseg_bounds_def hseg_distance_def py_truediv_def py_round_def round_half_even_def Let_def)

theorem match_nearest_within_tolerance_witness:
  "match hseg_bounds hseg_distance two_point_matcher =
     Inr \<lparr>matched_segments = [\<lparr>seg_index = 7, distance_m = 40, orden = 0\<rparr>],
          confidence = 20, distance_avg_m = Some 40, unmatched_points = 1, total_points = 2,
          match_rate_pct = 50\<rparr>
   \<and> (\<exists>c \<in> set (candidates hseg_bounds two_point_matcher (gpx two_point_matcher ! 0)).
         hseg_distance (gpx two_point_matcher ! 0) (snd c) * 111000 \<le> 50)
   \<and> \<not> (\<exists>c \<in> set (candidates hseg_bounds two_point_matcher (gpx two_point_matcher ! 1)).
         hseg_distance (gpx two_point_matcher ! 1) (snd c) * 111000 \<le> 50)"
proof -
  let ?res = "\<lparr>matched_segments = [\<lparr>seg_index = 7, distance_m = 40, orden = 0\<rparr>],
          confidence = 20, distance_avg_m = Some 40, unmatched_points = 1, total_points = 2,
          match_rate_pct = 50\<rparr>"
  have len: "length (gpx two_point_matcher) = 2" and tol: "buffer_m two_point_matcher = 50"
    by (simp_all add: two_point_matcher_def new_map_matcher_def)
  have "(0::nat) < length (gpx two_point_matcher)" by (simp add: len)
  from match_nearest_within_tolerance [OF two_point_match this]
  have a: "\<exists>c \<in> set (candidates hseg_bounds two_point_matcher (gpx two_point_matcher ! 0)).
         hseg_distance (gpx two_point_matcher ! 0) (snd c) * 111000 \<le> 50"
    by (simp add: tol)
  have "(1::nat) < length (gpx two_point_matcher)" by (simp add: len)
  from match_nearest_within_tolerance [OF two_point_match this]
  have b: "\<not> (\<exists>c \<in> set (candidates hseg_bounds two_point_matcher (gpx two_point_matcher ! 1)).
         hseg_distance (gpx two_point_matcher ! 1) (snd c) * 111000 \<le> 50)"
    by (simp add: tol)
  from two_point_match a b show ?thesis by blast
qed

lemma sum_list_update:
  fixes d :: "('k \<times> real) list"
  shows "map_of d k = Some x \<Longrightarrow>
    sum_list (map snd (AList.update k y d)) = sum_list (map snd d) - x + y"
  by (induction d) (auto split: if_splits)

lemma sum_list_bump:
  fixes d :: "('k \<times> real) list"
  shows "sum_list (map snd (bump k v d)) = sum_list (map snd d) + v"
  by (cases "map_of d k") (simp_all add: bump_def sum_list_update)

lemma keys_bump: "fst ` set (bump k v d) = insert k (fst ` set d)"
  by (cases "map_of d k") (auto simp: bump_def dom_update dest: map_of_in_keys)

lemma distinct_bump:
  assumes "distinct (map fst d)"
  shows "distinct (map fst (bump k v d))"
proof (cases "map_of d k")
  case None
  then have "k \<notin> fst ` set d" by (simp add: map_of_eq_None_iff)
  with assms show ?thesis unfolding bump_def None by simp
next
  case (Some x)
  with assms show ?thesis unfolding bump_def Some by (simp add: distinct_update)
qed

lemma fold_bump_keys:
  "fst ` set (fold (\<lambda>seg d. bump (seg_index seg) (1::nat) d) matched d0)
     = seg_index ` set matched \<union> fst ` set d0"
  by (induction matched arbitrary: d0) (auto simp: keys_bump)

lemma fold_bump_distinct:
  "distinct (map fst d0) \<Longrightarrow>
     distinct (map fst (fold (\<lambda>seg d. bump (seg_index seg) (1::nat) d) matched d0))"
  by (induction matched arbitrary: d0) (simp_all add: distinct_bump)

lemma segment_usage_keys:
  "set (map fst (segment_usage matched)) = seg_index ` set matched"
  "distinct (map fst (segment_usage matched))"
  using fold_bump_keys [of matched "[]"] fold_bump_distinct [of "[]" matched]
  by (simp_all add: segment_usage_def)

lemma length_loop_spec:
  "length_loop rnc ks (L0, t0) = Inr (L, t) \<Longrightarrow>
     t = t0 + sum_list (map (segment_km rnc) ks)
     \<and> (\<forall>idx. map_of L idx = (if idx \<in> set ks then Some (segment_km rnc idx) else map_of L0 idx))"
proof (induction ks arbitrary: L0 t0)
  case Nil
  then show ?case by simp
next
  case (Cons k ks)
  from Cons.prems obtain row where row: "map_of rnc k = Some row"
    and r: "length_loop rnc ks (AList.update k (geometry_length row * 111) L0,
              t0 + geometry_length row * 111) = Inr (L, t)"
    by (auto simp: Let_def split: option.splits)
  have km: "segment_km rnc k = geometry_length row * 111" by (simp add: segment_km_def row)
  from Cons.IH [OF r] show ?case by (auto simp: km update_conv')
qed

lemma bucket_row_sums:
  "sum_list (map snd (superficie (bucket_row num_str row km st)))
     = sum_list (map snd (superficie st)) + km"
  "sum_list (map snd (administracion (bucket_row num_str row km st)))
     = sum_list (map snd (administracion st)) + km"
  "distancia_rnc_km (bucket_row num_str row km st) = distancia_rnc_km st"
  by (simp_all add: bucket_row_def Let_def sum_list_bump)

lemma bucket_loop_spec:
  "bucket_loop num_str rnc L ks st0 = Inr st \<Longrightarrow>
   \<forall>idx \<in> set ks. map_of L idx = Some (segment_km rnc idx) \<Longrightarrow>
     sum_list (map snd (superficie st))
       = sum_list (map snd (superficie st0)) + sum_list (map (segment_km rnc) ks)
     \<and> sum_list (map snd (administracion st))
       = sum_list (map snd (administracion st0)) + sum_list (map (segment_km rnc) ks)
     \<and> distancia_rnc_km st = distancia_rnc_km st0"
proof (induction ks arbitrary: st0)
  case Nil
  then show ?case by simp
next
  case (Cons k ks)
  from Cons.prems(2) have km: "map_of L k = Some (segment_km rnc k)" by simp
  with Cons.prems(1) obtain row where row: "map_of rnc k = Some row"
    and r: "bucket_loop num_str rnc L ks (bucket_row num_str row (segment_km rnc k) st0) = Inr st"
    by (auto split: option.splits)
  from Cons.IH [OF r] Cons.prems(2) show ?case by (simp add: bucket_row_sums)
qed

text \<open>
  C4, as amended. When the two loops of \<^verbatim>\<open>analyze\<close> finish, the accumulated total is
  the sum of the lengths of the matched segments, each index label counted once however
  many track points matched it; the accumulated per-surface lengths add up to this
  total, and so do the accumulated per-administration lengths. What \<^verbatim>\<open>analyze\<close>
  returns for a non-empty list is these accumulators, each rounded to three decimals.
\<close>

theorem analyze_totals_sum_once:
  assumes "analyze_totals num_str rnc matched = Inr t"
  shows "distancia_rnc_km t = Some (\<Sum>idx \<in> seg_index ` set matched. segment_km rnc idx)
     \<and> sum_list (map snd (superficie t)) = (\<Sum>idx \<in> seg_index ` set matched. segment_km rnc idx)
     \<and> sum_list (map snd (administracion t))
         = (\<Sum>idx \<in> seg_index ` set matched. segment_km rnc idx)
     \<and> analyze num_str rnc matched = Inr (if matched = [] then empty_totals else round_totals t)"
proof -
  define ks where "ks = map fst (segment_usage matched)"
  have ks: "set ks = seg_index ` set matched" "distinct ks"
    using segment_usage_keys [of matched] by (simp_all add: ks_def)
  from assms obtain L total where l: "length_loop rnc ks ([], 0) = Inr (L, total)"
    and b: "bucket_loop num_str rnc L ks (empty_totals\<lparr>distancia_rnc_km := Some total\<rparr>) = Inr t"
    by (auto simp: analyze_totals_def Let_def ks_def [symmetric] split: sum.splits)
  from length_loop_spec [OF l] have total: "total = sum_list (map (segment_km rnc) ks)"
    and L: "\<forall>idx \<in> set ks. map_of L idx = Some (segment_km rnc idx)"
    by simp_all
  have sum: "sum_list (map (segment_km rnc) ks) = (\<Sum>idx \<in> seg_index ` set matched. segment_km rnc idx)"
    using ks by (metis sum_list_distinct_conv_sum_set)
  from bucket_loop_spec [OF b L] have
    "sum_list (map snd (superficie t)) = sum_list (map (segment_km rnc) ks)"
    "sum_list (map snd (administracion t)) = sum_list (map (segment_km rnc) ks)"
    "distancia_rnc_km t = Some total"
    by (simp_all add: empty_totals_def)
  moreover have "analyze num_str rnc matched
      = Inr (if matched = [] then empty_totals else round_totals t)"
    using assms by (simp add: analyze_def)
  ultimately show ?thesis unfolding total sum by simp
qed

lemma two_road_totals:
  "analyze_totals (\<lambda>x. []) two_road_table two_road_matches =
     Inr \<lparr>distancia_rnc_km = Some (30008 / 10000),
          superficie = [(''Con pavimento'', 10004 / 10000), (''Sin pavimento'', 20004 / 10000)],
          administracion = [(''Federal'', 30008 / 10000)],
          tipo_vialidad = [(''Carretera'', 10004 / 10000), (''Camino'', 20004 / 10000)],
          superficie_na_km = 0, administracion_na_km = 0\<rparr>"
  by (simp add: analyze_totals_def segment_usage_def two_road_matches_def two_road_table_def
      bump_def bucket_row_def row_get_def not_available_def falsy_or_na_def py_str_def
      py_strip_def is_space_def empty_totals_def Let_def)

theorem analyze_totals_sum_once_witness:
  "analyze_totals (\<lambda>x. []) two_road_table two_road_matches =
     Inr \<lparr>distancia_rnc_km = Some (30008 / 10000),
          superficie = [(''Con pavimento'', 10004 / 10000), (''Sin pavimento'', 20004 / 10000)],
          administracion = [(''Federal'', 30008 / 10000)],
          tipo_vialidad = [(''Carretera'', 10004 / 10000), (''Camino'', 20004 / 10000)],
          superficie_na_km = 0, administracion_na_km = 0\<rparr>
   \<and> (\<Sum>idx \<in> seg_index ` set two_road_matches. segment_km two_road_table idx) = 30008 / 10000"
  using analyze_totals_sum_once [OF two_road_totals] two_road_totals by simp

text \<open>
  The claim fails on the figures returned: the per-surface lengths returned are 1 and 2,
  the total returned is 3.001.
\<close>

theorem analyze_rounded_counterexample:
  "analyze (\<lambda>x. []) two_road_table two_road_matches =
     Inr \<lparr>distancia_rnc_km = Some (3001 / 1000),
          superficie = [(''Con pavimento'', 1), (''Sin pavimento'', 2)],
          administracion = [(''Federal'', 3001 / 1000)],
          tipo_vialidad = [(''Carretera'', 1), (''Camino'', 2)],
          superficie_na_km = 0, administracion_na_km = 0\<rparr>
   \<and> sum_list (map snd [(''Con pavimento'', 1 :: real), (''Sin pavimento'', 2)]) \<noteq> 3001 / 1000"
proof -
  have "two_road_matches \<noteq> []" by (simp add: two_road_matches_def)
  then show ?thesis
    by (simp add: analyze_def two_road_totals round_totals_def py_round_def round_half_even_def)
qed

lemma is_point_in_service_area_ready:
  assumes "analyzer_ready na" and "graph na = Some G"
  shows "\<exists>r. is_point_in_service_area na p S nd maxd = Inr r"
proof -
  from find_nearest_node_ready [OF assms, of p] obtain i d where
    "find_nearest_node na p = Inr (Some (node_ids na ! i, d))"
    by blast
  then show ?thesis
    by (cases "node_ids na ! i \<in> S") (auto simp: is_point_in_service_area_def Let_def)
qed

lemma centroid_loop_keeps:
  assumes "\<And>p. \<exists>r. is_point_in_service_area na p (set nodes) nd maxd = Inr r"
  shows "\<exists>f. centroid_loop sh na nodes nd maxd direct zone_rows acc = Inr f \<and> set acc \<subseteq> set f"
proof (induction zone_rows arbitrary: acc)
  case Nil
  then show ?case by simp
next
  case (Cons row rest)
  show ?case
  proof (cases "fst row \<in> set direct")
    case True
    with Cons.IH [of acc] show ?thesis by simp
  next
    case False
    from assms [of "centroid sh (snd row)"] obtain b t where
      r: "is_point_in_service_area na (centroid sh (snd row)) (set nodes) nd maxd = Inr (b, t)"
      by (metis surj_pair)
    define acc' where "acc' = (if b then set_add (fst row) acc else acc)"
    have "set acc \<subseteq> set acc'" by (auto simp: acc'_def set_set_add)
    moreover from Cons.IH [of acc'] obtain f where
      "centroid_loop sh na nodes nd maxd direct rest acc' = Inr f" "set acc' \<subseteq> set f"
      by blast
    ultimately show ?thesis using False r by (auto simp: acc'_def)
  qed
qed

lemma loc_rows_member:
  "row \<in> set frame \<Longrightarrow> fst row \<in> set labels \<Longrightarrow> row \<in> set (loc_rows frame labels)"
  by (auto simp: loc_rows_def)

lemma get_service_area_polygon_graph:
  "graph na = Some G \<Longrightarrow> \<exists>r. get_service_area_polygon sh na nodes b = Inr r"
  by (simp add: get_service_area_polygon_def Let_def)

text \<open>
  C1, as amended. For every analyzer built from a road table with non-negative lengths
  \<^verbatim>\<open>_analyze_with_network\<close> returns, and every population block whose polygon
  intersects the 50 m buffer around the projected track is in the served table it
  returns, with no condition on the centroid of the block.
\<close>

theorem direct_corridor_blocks_served:
  assumes built: "load_and_build_network (Some segs) = Inr na"
    and lens: "\<forall>row \<in> set segs. 0 \<le> longitud row"
  shows "\<exists>served. analyze_with_network sh manzanas_gdf na route_geometry route_projected
           buffer_distance_m = Inr served
     \<and> (\<forall>row \<in> set manzanas_gdf.
           intersects sh (snd row) (buffer sh route_projected 50) \<longrightarrow> row \<in> set served)"
proof -
  from built obtain G where g: "graph na = Some G"
    by (auto simp: load_and_build_network_def split: sum.splits if_splits)
  note rdy = load_and_build_network_ready [OF built]
  note nn = load_and_build_network_nonneg [OF built lens g]
  define direct where
    "direct = filter (\<lambda>row. intersects sh (snd row) (buffer sh route_projected 50)) manzanas_gdf"
  define direct_indices where "direct_indices = remdups (map fst direct)"
  have direct_in: "row \<in> set direct" and index_in: "fst row \<in> set direct_indices"
    if "row \<in> set manzanas_gdf" "intersects sh (snd row) (buffer sh route_projected 50)" for row
    using that by (auto simp: direct_def direct_indices_def)
  from find_nearest_nodes_on_route_ready [OF rdy g, of sh route_geometry] obtain seeds where
    seeds: "find_nearest_nodes_on_route sh na route_geometry 100 = Inr seeds"
    by blast
  from calculate_service_area_spec [OF rdy g nn seeds, of buffer_distance_m] obtain R where
    R: "calculate_service_area sh na route_geometry buffer_distance_m = Inr (map fst R, R)"
    by blast
  show ?thesis
  proof (cases "map fst R = []")
    case True
    then have "analyze_with_network sh manzanas_gdf na route_geometry route_projected
           buffer_distance_m = Inr direct"
      using R by (simp add: analyze_with_network_def Let_def direct_def)
    with direct_in show ?thesis by blast
  next
    case False
    from get_service_area_polygon_graph [OF g, of sh "map fst R" 50] obtain poly where
      poly: "get_service_area_polygon sh na (map fst R) 50 = Inr poly"
      by blast
    show ?thesis
    proof (cases poly)
      case None
      then have "analyze_with_network sh manzanas_gdf na route_geometry route_projected
           buffer_distance_m = Inr direct"
        using R False poly by (simp add: analyze_with_network_def Let_def direct_def)
      with direct_in show ?thesis by blast
    next
      case (Some area)
      define inside where "inside = filter (\<lambda>row. intersects sh (snd row) area) manzanas_gdf"
      from centroid_loop_keeps [of na "map fst R" R buffer_distance_m sh direct_indices inside
          direct_indices, OF is_point_in_service_area_ready [OF rdy g]]
      obtain f where f: "centroid_loop sh na (map fst R) R buffer_distance_m direct_indices inside
          direct_indices = Inr f" and sub: "set direct_indices \<subseteq> set f"
        by blast
      have "analyze_with_network sh manzanas_gdf na route_geometry route_projected
           buffer_distance_m = Inr (loc_rows manzanas_gdf f)"
        using R False poly Some f
        by (simp add: analyze_with_network_def Let_def direct_def [symmetric]
            direct_indices_def [symmetric] inside_def [symmetric])
      moreover have "row \<in> set (loc_rows manzanas_gdf f)"
        if "row \<in> set manzanas_gdf" "intersects sh (snd row) (buffer sh route_projected 50)" for row
        using that(1) index_in [OF that] sub by (intro loc_rows_member) auto
      ultimately show ?thesis by blast
    qed
  qed
qed

lemma road_graph_edges:
  "graph_edges road_graph [] =
     [(1, 2, \<lparr>weight = 300, geometry = LineString [(0, 0), (300, 0)]\<rparr>),
      (2, 3, \<lparr>weight = 500, geometry = LineString [(300, 0), (800, 0)]\<rparr>),
      (3, 4, \<lparr>weight = 400, geometry = LineString [(800, 0), (1200, 0)]\<rparr>)]"
  by (simp add: road_graph_def)

lemma road_polygon_700:
  "get_service_area_polygon axis_shapely road_analyzer [1, 2, 3] 50 = Inr (Some (- 50, 850))"
  by (simp add: get_service_area_polygon_def graph_road_analyzer road_graph_edges Let_def)
     (simp add: road_analyzer_def axis_shapely_def)

lemma long_zone_centroid_unreachable:
  "is_point_in_service_area road_analyzer (centroid axis_shapely long_zone) {1, 2, 3}
     [(1, 0), (2, 0), (3, 500)] 700 = Inr (False, None)"
  by (simp add: is_point_in_service_area_def find_nearest_node_def road_analyzer_def
      axis_shapely_def long_zone_def euclid_axis)

lemma block_2_centroid_reachable:
  "is_point_in_service_area road_analyzer (centroid axis_shapely (600, 700)) {1, 2, 3}
     [(1, 0), (2, 0), (3, 500)] 700 = Inr (True, Some 650)"
  by (simp add: is_point_in_service_area_def find_nearest_node_def road_analyzer_def
      axis_shapely_def euclid_axis)

lemma axis_intersects:
  "intersects axis_shapely (a, b) (c, d) = (a \<le> d \<and> c \<le> b)"
  "buffer axis_shapely (a, b) r = (a - r, b + r)"
  "to_utm axis_shapely g = g"
  by (simp_all add: axis_shapely_def)

lemma road_blocks_served:
  "analyze_with_network axis_shapely road_blocks road_analyzer track track 700
     = Inr [(0, long_zone), (2, (600, 700))]"
  by (simp add: analyze_with_network_def track_area_700 road_polygon_700 road_blocks_def
      long_zone_centroid_unreachable block_2_centroid_reachable loc_rows_def set_add_def
      Let_def)
     (simp add: track_def long_zone_def axis_intersects block_2_centroid_reachable
      loc_rows_def set_add_def)

theorem direct_corridor_blocks_served_witness:
  "analyze_with_network axis_shapely road_blocks road_analyzer track track 700
     = Inr [(0, long_zone), (2, (600, 700))]
   \<and> intersects axis_shapely long_zone (buffer axis_shapely track 50)
   \<and> is_point_in_service_area road_analyzer (centroid axis_shapely long_zone) (set [1, 2, 3])
        [(1, 0), (2, 0), (3, 500)] 700 = Inr (False, None)"
proof -
  from direct_corridor_blocks_served [OF road_table_built road_table_nonneg,
      of axis_shapely road_blocks track track 700]
  obtain served where
    s: "analyze_with_network axis_shapely road_blocks road_analyzer track track 700 = Inr served"
    and d: "\<forall>row \<in> set road_blocks.
           intersects axis_shapely (snd row) (buffer axis_shapely track 50) \<longrightarrow> row \<in> set served"
    by blast
  have hit: "intersects axis_shapely long_zone (buffer axis_shapely track 50)"
    by (simp add: long_zone_def track_def axis_intersects)
  have "(0, long_zone) \<in> set road_blocks" by (simp add: road_blocks_def)
  with d hit have "(0, long_zone) \<in> set served" by fastforce
  with s hit long_zone_centroid_unreachable show ?thesis
    by (simp add: road_blocks_served)
qed

text \<open>
  The claim fails for localities: the long zone meets the 50 m corridor of the track, and
  as a locality it is not listed, its centroid failing the reachability test.
\<close>

theorem locality_direct_corridor_counterexample:
  "detect_with_network axis_shapely road_detector track =
     Inr \<lparr>municipios = [], total_municipios = 0, total_urbanas = 0, total_rurales = 0,
          total_localidades = 0, network_analysis = True\<rparr>
   \<and> intersects axis_shapely (to_utm axis_shapely (loc_geometry long_locality))
        (buffer axis_shapely (to_utm axis_shapely track) 50)"
proof -
  have det: "ld_network_analyzer road_detector = road_analyzer" "ld_buffer_m road_detector = 700"
    "marco_gdf road_detector = [long_locality]" "municipios_gdf road_detector = None"
    by (simp_all add: road_detector_def new_locality_detector_def)
  have geo: "loc_geometry long_locality = long_zone" by (simp add: long_locality_def)
  have hit: "intersects axis_shapely long_zone (- 50, 850)"
    by (simp add: long_zone_def axis_intersects)
  have "detect_with_network axis_shapely road_detector track =
     Inr \<lparr>municipios = [], total_municipios = 0, total_urbanas = 0, total_rurales = 0,
          total_localidades = 0, network_analysis = True\<rparr>"
    by (simp add: detect_with_network_def det track_area_700 road_polygon_700 geo
        axis_intersects(3) hit long_zone_centroid_unreachable make_result_def Let_def)
  moreover have "intersects axis_shapely (to_utm axis_shapely (loc_geometry long_locality))
        (buffer axis_shapely (to_utm axis_shapely track) 50)"
    by (simp add: geo long_zone_def track_def axis_intersects)
  ultimately show ?thesis by simp
qed

end
